theory Spec2Isabelle
  imports Complex_Main "HOL-Library.FSet" "HOL-Library.Multiset"
    "HOL-Library.List_Lexorder" "HOL-Library.Product_Lexorder"
begin

section \<open>The DataTable component: data model\<close>

text \<open>
  The component is the React function component \<open>DataTable\<close>. Its rows are JavaScript
  objects with an \<open>id\<close> property; a cell is whatever \<open>row[key]\<close> evaluates to. The cells
  modelled here are the primitive values: \<open>undefined\<close> (also what a missing property
  reads as), \<open>null\<close>, numbers, strings and booleans. A JavaScript number is \<open>NaN\<close>,
  one of the two infinities, or finite; a finite number is modelled as the real it
  denotes. The rounding of \<open>a - b\<close> is not modelled: the rounded difference of two finite
  doubles has the sign of the exact one (also where it overflows to an infinity), and the
  sort reads only the sign. The zero with a minus sign is not told apart from 0.
\<close>

datatype number = Finite real | NaN | PosInfinity | NegInfinity

datatype cell = Undefined | Null | Num number | Str string | Bool bool

type_synonym row = "(string \<times> cell) list"

definition get :: "row \<Rightarrow> string \<Rightarrow> cell" where
  "get r k = (case map_of r k of None \<Rightarrow> Undefined | Some v \<Rightarrow> v)"

definition row_id :: "row \<Rightarrow> cell" where
  "row_id r = get r ''id''"

datatype direction = Asc | Desc

record sort_config =
  key :: string
  direction :: direction

datatype selection_mode = Single | Multiple

text \<open>
  The props of the component that the state logic reads. \<open>onRowSelect\<close> is optional in
  the source (\<open>onRowSelect?.(arr)\<close>): the field says whether the caller supplied it.
  \<open>itemsPerPage\<close> is a JavaScript number that the interface documents as a positive
  integer; for 0 the source computes \<open>Infinity\<close> or \<open>NaN\<close> total pages, which the
  integers do not have, so every statement about pages assumes \<open>0 < itemsPerPage\<close>.
\<close>

record props =
  data :: "row list"
  selectable :: bool
  selectionMode :: selection_mode
  onRowSelect :: bool
  itemsPerPage :: int

text \<open>
  The three \<open>useState\<close> cells, and what React remembers of the dependency arrays of the
  two \<open>useEffect\<close> calls from the last committed render (\<open>None\<close> before the first one):
  \<open>[data.length]\<close> for the page-reset effect and \<open>[totalPages, currentPage]\<close> for the
  clamp effect.
\<close>

record table_state =
  sortConfig :: "sort_config option"
  selectedRows :: "cell fset"
  currentPage :: int
  deps_reset :: "nat option"
  deps_clamp :: "(int \<times> int) option"

text \<open>
  What the JavaScript platform supplies and the repository does not define:
  \<open>String.prototype.localeCompare\<close> with the options
  \<open>{numeric: true, sensitivity: 'base'}\<close>, and the conversion of a finite number to a
  string. The statements that do not depend on them hold of every platform; \<open>js_platform\<close>
  below is the one the others are evaluated on.
\<close>

record platform =
  localeCompare :: "string \<Rightarrow> string \<Rightarrow> real"
  numberToString :: "real \<Rightarrow> string"

section \<open>Sorting\<close>

text \<open>\<open>a == null\<close> holds of \<open>null\<close> and \<open>undefined\<close> only.\<close>

fun is_nullish :: "cell \<Rightarrow> bool" where
  "is_nullish Undefined = True"
| "is_nullish Null = True"
| "is_nullish _ = False"

text \<open>\<open>typeof a === 'number'\<close>, which holds of \<open>NaN\<close> and the infinities too.\<close>

fun is_number :: "cell \<Rightarrow> bool" where
  "is_number (Num _) = True"
| "is_number _ = False"

fun the_number :: "cell \<Rightarrow> number" where
  "the_number (Num n) = n"
| "the_number _ = NaN"

text \<open>\<open>a - b\<close> and \<open>-a\<close> on numbers.\<close>

fun number_minus :: "number \<Rightarrow> number \<Rightarrow> number" where
  "number_minus NaN _ = NaN"
| "number_minus _ NaN = NaN"
| "number_minus PosInfinity PosInfinity = NaN"
| "number_minus NegInfinity NegInfinity = NaN"
| "number_minus PosInfinity _ = PosInfinity"
| "number_minus NegInfinity _ = NegInfinity"
| "number_minus (Finite _) PosInfinity = NegInfinity"
| "number_minus (Finite _) NegInfinity = PosInfinity"
| "number_minus (Finite x) (Finite y) = Finite (x - y)"

fun number_neg :: "number \<Rightarrow> number" where
  "number_neg NaN = NaN"
| "number_neg PosInfinity = NegInfinity"
| "number_neg NegInfinity = PosInfinity"
| "number_neg (Finite x) = Finite (- x)"

text \<open>\<open>String(a)\<close> on a primitive value.\<close>

fun String_of :: "platform \<Rightarrow> cell \<Rightarrow> string" where
  "String_of pf (Str s) = s"
| "String_of pf (Num (Finite x)) = numberToString pf x"
| "String_of pf (Num NaN) = ''NaN''"
| "String_of pf (Num PosInfinity) = ''Infinity''"
| "String_of pf (Num NegInfinity) = ''-Infinity''"
| "String_of pf (Bool b) = (if b then ''true'' else ''false'')"
| "String_of pf Null = ''null''"
| "String_of pf Undefined = ''undefined''"

definition compare :: "platform \<Rightarrow> cell \<Rightarrow> cell \<Rightarrow> number" where
  "compare pf a b =
     (if is_nullish a \<and> is_nullish b then Finite 0
      else if is_nullish a then Finite (- 1)
      else if is_nullish b then Finite 1
      else if is_number a \<and> is_number b then number_minus (the_number a) (the_number b)
      else Finite (localeCompare pf (String_of pf a) (String_of pf b)))"

text \<open>
  \<open>Array.prototype.sort(comparefn)\<close>. The sort reads of a result of \<open>comparefn\<close> only
  whether it is negative, and takes \<open>NaN\<close> for 0; \<open>SortCompare\<close> is that sign.
\<close>

fun sort_sign :: "number \<Rightarrow> real" where
  "sort_sign (Finite x) = sgn x"
| "sort_sign NaN = 0"
| "sort_sign PosInfinity = 1"
| "sort_sign NegInfinity = - 1"

definition SortCompare :: "('a \<Rightarrow> 'a \<Rightarrow> number) \<Rightarrow> 'a \<Rightarrow> 'a \<Rightarrow> real" where
  "SortCompare comparefn x y = sort_sign (comparefn x y)"

text \<open>
  ECMAScript fixes the result of the sort only when \<open>comparefn\<close> is a consistent
  comparator on the elements; otherwise the order is the engine's. The model is the sort
  of V8 (Node, Chrome), a TimSort, as it runs on an array of fewer than 64 elements:
  \<open>CountAndMakeRun\<close> takes the longest run the array starts with, non-descending or
  strictly descending as its first two elements are, and reverses a descending one;
  \<open>BinaryInsertionSort\<close> then puts each remaining element into the sorted part, at the
  place a binary search finds. A longer array V8 cuts into such runs and merges them;
  the model sorts it the same way as a short one, which gives the same list where the
  comparator is consistent (\<open>array_sort_unique\<close> below).
\<close>

fun descending_run :: "('a \<Rightarrow> 'a \<Rightarrow> real) \<Rightarrow> 'a \<Rightarrow> 'a list \<Rightarrow> 'a list \<times> 'a list" where
  "descending_run ord prev [] = ([], [])"
| "descending_run ord prev (y # ys) =
     (if ord y prev < 0
      then (case descending_run ord y ys of (run, rest) \<Rightarrow> (y # run, rest))
      else ([], y # ys))"

fun ascending_run :: "('a \<Rightarrow> 'a \<Rightarrow> real) \<Rightarrow> 'a \<Rightarrow> 'a list \<Rightarrow> 'a list \<times> 'a list" where
  "ascending_run ord prev [] = ([], [])"
| "ascending_run ord prev (y # ys) =
     (if ord y prev < 0 then ([], y # ys)
      else (case ascending_run ord y ys of (run, rest) \<Rightarrow> (y # run, rest)))"

fun CountAndMakeRun :: "('a \<Rightarrow> 'a \<Rightarrow> real) \<Rightarrow> 'a list \<Rightarrow> 'a list \<times> 'a list" where
  "CountAndMakeRun ord (x # y # ys) =
     (if ord y x < 0
      then (case descending_run ord y ys of (run, rest) \<Rightarrow> (rev (x # y # run), rest))
      else (case ascending_run ord y ys of (run, rest) \<Rightarrow> (x # y # run, rest)))"
| "CountAndMakeRun ord xs = (xs, [])"

function binary_search :: "('a \<Rightarrow> 'a \<Rightarrow> real) \<Rightarrow> 'a \<Rightarrow> 'a list \<Rightarrow> nat \<Rightarrow> nat \<Rightarrow> nat" where
  "binary_search ord pivot ws left right =
     (if left < right
      then (if ord pivot (ws ! (left + (right - left) div 2)) < 0
            then binary_search ord pivot ws left (left + (right - left) div 2)
            else binary_search ord pivot ws (left + (right - left) div 2 + 1) right)
      else left)"
  by pat_completeness auto
termination
  by (relation "measure (\<lambda>(ord, pivot, ws, left, right). right - left)") auto

declare binary_search.simps [simp del]

definition insert_pivot :: "('a \<Rightarrow> 'a \<Rightarrow> real) \<Rightarrow> 'a list \<Rightarrow> 'a \<Rightarrow> 'a list" where
  "insert_pivot ord ws pivot =
     take (binary_search ord pivot ws 0 (length ws)) ws @
     pivot # drop (binary_search ord pivot ws 0 (length ws)) ws"

definition BinaryInsertionSort :: "('a \<Rightarrow> 'a \<Rightarrow> real) \<Rightarrow> 'a list \<Rightarrow> 'a list \<Rightarrow> 'a list" where
  "BinaryInsertionSort ord run rest = foldl (insert_pivot ord) run rest"

definition ArrayTimSort :: "('a \<Rightarrow> 'a \<Rightarrow> real) \<Rightarrow> 'a list \<Rightarrow> 'a list" where
  "ArrayTimSort ord xs =
     (case CountAndMakeRun ord xs of (run, rest) \<Rightarrow> BinaryInsertionSort ord run rest)"

definition array_sort :: "('a \<Rightarrow> 'a \<Rightarrow> number) \<Rightarrow> 'a list \<Rightarrow> 'a list" where
  "array_sort comparefn xs = ArrayTimSort (SortCompare comparefn) xs"

text \<open>The comparator that \<open>sortedData\<close> hands to the sort.\<close>

definition row_compare :: "platform \<Rightarrow> sort_config \<Rightarrow> row \<Rightarrow> row \<Rightarrow> number" where
  "row_compare pf cfg x y =
     (if direction cfg = Asc
      then compare pf (get x (key cfg)) (get y (key cfg))
      else number_neg (compare pf (get x (key cfg)) (get y (key cfg))))"

definition sortedData :: "platform \<Rightarrow> sort_config option \<Rightarrow> row list \<Rightarrow> row list" where
  "sortedData pf sc d =
     (case sc of None \<Rightarrow> d | Some cfg \<Rightarrow> array_sort (row_compare pf cfg) d)"

text \<open>
  A comparator is consistent on the elements of a list when the signs of \<open>c x y\<close> and
  \<open>c y x\<close> are opposite and "not greater" is transitive; it is asymmetric when of two
  elements at most one compares less than the other. \<open>ordered_by\<close>: no row compares
  greater than a later one.
\<close>

definition consistent_on :: "('a \<Rightarrow> 'a \<Rightarrow> real) \<Rightarrow> 'a list \<Rightarrow> bool" where
  "consistent_on c xs \<longleftrightarrow>
     (\<forall>x \<in> set xs. \<forall>y \<in> set xs.
        sgn (c y x) = - sgn (c x y) \<and>
        (\<forall>z \<in> set xs. c x y \<le> 0 \<and> c y z \<le> 0 \<longrightarrow> c x z \<le> 0))"


definition ordered_by :: "platform \<Rightarrow> sort_config \<Rightarrow> row list \<Rightarrow> bool" where
  "ordered_by pf cfg rows \<longleftrightarrow>
     sorted_wrt (\<lambda>r s. SortCompare (row_compare pf cfg) r s \<le> 0) rows"

text \<open>
  Modelled from the spec: the string comparison of the platform, which the spec
  describes as "locale-aware, case-insensitive string comparison with numeric-substring
  awareness (so "item2" sorts before "item10")". On ASCII strings: a string is read as
  its letters without their case, its runs of digits as the numbers they write, and its
  other characters; two strings compare as these sequences do, item by item, a shorter
  one before its extensions, a character that is neither letter nor digit before a
  number, and a number before a letter. The order of two characters that are neither
  letters nor digits is the order of their codes here; the spec does not give one.
\<close>

definition is_digit :: "char \<Rightarrow> bool" where
  "is_digit ch \<longleftrightarrow> 48 \<le> (of_char ch :: nat) \<and> (of_char ch :: nat) \<le> 57"

definition digit_value :: "char \<Rightarrow> nat" where
  "digit_value ch = of_char ch - 48"

definition digits_value :: "string \<Rightarrow> nat" where
  "digits_value ds = foldl (\<lambda>n ch. 10 * n + digit_value ch) 0 ds"

definition is_upper :: "char \<Rightarrow> bool" where
  "is_upper ch \<longleftrightarrow> 65 \<le> (of_char ch :: nat) \<and> (of_char ch :: nat) \<le> 90"

definition is_lower :: "char \<Rightarrow> bool" where
  "is_lower ch \<longleftrightarrow> 97 \<le> (of_char ch :: nat) \<and> (of_char ch :: nat) \<le> 122"

definition to_lower :: "char \<Rightarrow> char" where
  "to_lower ch = (if is_upper ch then char_of (of_char ch + 32 :: nat) else ch)"

definition char_weight :: "char \<Rightarrow> nat \<times> nat" where
  "char_weight ch =
     (if is_upper ch \<or> is_lower ch then (2, of_char (to_lower ch)) else (0, of_char ch))"

fun collation_key :: "nat option \<Rightarrow> string \<Rightarrow> (nat \<times> nat) list" where
  "collation_key None [] = []"
| "collation_key (Some n) [] = [(1, n)]"
| "collation_key acc (ch # cs) =
     (if is_digit ch
      then collation_key (Some (10 * (case acc of None \<Rightarrow> 0 | Some n \<Rightarrow> n) + digit_value ch)) cs
      else (case acc of None \<Rightarrow> [] | Some n \<Rightarrow> [(1, n)]) @ char_weight ch # collation_key None cs)"

definition collate :: "string \<Rightarrow> string \<Rightarrow> real" where
  "collate s t =
     (if collation_key None s < collation_key None t then - 1
      else if collation_key None s = collation_key None t then 0 else 1)"

text \<open>
  \<open>Number::toString\<close> of ECMAScript on a finite number that is written in decimal with
  at most 17 digits and without exponent (below 10 to the power 21 and, unless 0, not below
  a millionth in magnitude): the sign, the digits of the whole part and, after a point,
  those of the fraction.
\<close>

definition digit_char :: "nat \<Rightarrow> char" where
  "digit_char d = ''0123456789'' ! d"

fun nat_string :: "nat \<Rightarrow> string" where
  "nat_string n =
     (if n < 10 then [digit_char n] else nat_string (n div 10) @ [digit_char (n mod 10)])"

fun frac_string :: "nat \<Rightarrow> real \<Rightarrow> string" where
  "frac_string k f =
     (if k = 0 \<or> f = 0 then []
      else digit_char (nat \<lfloor>f * 10\<rfloor>) # frac_string (k - 1) (f * 10 - of_int \<lfloor>f * 10\<rfloor>))"

declare nat_string.simps [simp del] frac_string.simps [simp del]

definition number_string :: "real \<Rightarrow> string" where
  "number_string x =
     (if x < 0 then ''-'' else []) @ nat_string (nat \<lfloor>\<bar>x\<bar>\<rfloor>) @
     (if \<bar>x\<bar> = of_int \<lfloor>\<bar>x\<bar>\<rfloor> then []
      else CHR ''.'' # frac_string 17 (\<bar>x\<bar> - of_int \<lfloor>\<bar>x\<bar>\<rfloor>))"

definition js_platform :: platform where
  "js_platform = \<lparr>localeCompare = collate, numberToString = number_string\<rparr>"

text \<open>
  Keys into linear orders, for the proofs that the comparator is consistent on a column:
  of the cells of a column of numbers, and of those of a column without numbers.
\<close>

fun number_rank :: "cell \<Rightarrow> nat \<times> real" where
  "number_rank (Num NegInfinity) = (1, 0)"
| "number_rank (Num (Finite x)) = (2, x)"
| "number_rank (Num PosInfinity) = (3, 0)"
| "number_rank _ = (0, 0)"

definition string_rank :: "cell \<Rightarrow> nat \<times> (nat \<times> nat) list" where
  "string_rank a =
     (if is_nullish a then (0, []) else (1, collation_key None (String_of js_platform a)))"

definition handleSort :: "string \<Rightarrow> bool option \<Rightarrow> table_state \<Rightarrow> table_state" where
  "handleSort k sortable st =
     (if sortable \<noteq> Some True then st
      else st\<lparr>sortConfig :=
        (case sortConfig st of
           None \<Rightarrow> Some \<lparr>key = k, direction = Asc\<rparr>
         | Some prev \<Rightarrow>
             if key prev = k
             then Some \<lparr>key = k, direction = (if direction prev = Asc then Desc else Asc)\<rparr>
             else Some \<lparr>key = k, direction = Asc\<rparr>)\<rparr>)"

section \<open>Pagination\<close>

definition totalPages :: "props \<Rightarrow> int" where
  "totalPages pr = max 1 \<lceil>real (length (data pr)) / real_of_int (itemsPerPage pr)\<rceil>"

text \<open>\<open>Array.prototype.slice(start, end)\<close>: a negative index counts from the end.\<close>

definition slice :: "'a list \<Rightarrow> int \<Rightarrow> int \<Rightarrow> 'a list" where
  "slice xs start stop =
     (let len = int (length xs);
          k = (if start < 0 then max (len + start) 0 else min start len);
          final = (if stop < 0 then max (len + stop) 0 else min stop len)
      in take (nat (final - k)) (drop (nat k) xs))"

definition paginatedData :: "row list \<Rightarrow> int \<Rightarrow> int \<Rightarrow> row list" where
  "paginatedData rows page perPage =
     (let start = (page - 1) * perPage in slice rows start (start + perPage))"

definition goToNext :: "props \<Rightarrow> table_state \<Rightarrow> table_state" where
  "goToNext pr st = st\<lparr>currentPage := min (currentPage st + 1) (totalPages pr)\<rparr>"

definition goToPrev :: "table_state \<Rightarrow> table_state" where
  "goToPrev st = st\<lparr>currentPage := max 1 (currentPage st - 1)\<rparr>"

section \<open>Selection\<close>

text \<open>
  \<open>notifySelection\<close> returns the calls of \<open>onRowSelect\<close> it makes, each as the argument
  passed: one call when the callback was supplied, none otherwise.
\<close>

definition notifySelection :: "props \<Rightarrow> cell fset \<Rightarrow> row list list" where
  "notifySelection pr ids =
     (if onRowSelect pr then [filter (\<lambda>d. row_id d |\<in>| ids) (data pr)] else [])"

definition handleSelectRow :: "props \<Rightarrow> row \<Rightarrow> table_state \<Rightarrow> table_state \<times> row list list" where
  "handleSelectRow pr r st =
     (if \<not> selectable pr then (st, [])
      else
        (let prev = selectedRows st;
             next = (if selectionMode pr = Single
                     then (if row_id r |\<in>| prev then {||} else {|row_id r|})
                     else (if row_id r |\<in>| prev then prev |-| {|row_id r|}
                           else finsert (row_id r) prev))
         in (st\<lparr>selectedRows := next\<rparr>, notifySelection pr next)))"

definition handleSelectAll :: "props \<Rightarrow> table_state \<Rightarrow> table_state \<times> row list list" where
  "handleSelectAll pr st =
     (if \<not> selectable pr \<or> selectionMode pr = Single then (st, [])
      else if fcard (selectedRows st) = length (data pr)
      then (st\<lparr>selectedRows := {||}\<rparr>, notifySelection pr {||})
      else
        (let all = fset_of_list (map row_id (data pr))
         in (st\<lparr>selectedRows := all\<rparr>, notifySelection pr all)))"

section \<open>Renders and effects\<close>

text \<open>
  One pass is a render with the current props and state, its commit, and the run of the
  effects whose dependencies changed, in the order of the source: the page-reset effect
  queues \<open>setCurrentPage(1)\<close>; the clamp effect reads \<open>currentPage\<close> and \<open>totalPages\<close> of
  this render and queues \<open>setCurrentPage(totalPages)\<close> when the page is beyond the last
  one. React applies the queued values in order, so the last one queued is the new page.
\<close>

definition queued_pages :: "props \<Rightarrow> table_state \<Rightarrow> int list" where
  "queued_pages pr st =
     (if deps_reset st = Some (length (data pr)) then [] else [1]) @
     (if deps_clamp st = Some (totalPages pr, currentPage st) then []
      else if currentPage st > totalPages pr then [totalPages pr] else [])"

definition render_pass :: "props \<Rightarrow> table_state \<Rightarrow> table_state" where
  "render_pass pr st =
     st\<lparr>currentPage := foldl (\<lambda>p v. v) (currentPage st) (queued_pages pr st),
        deps_reset := Some (length (data pr)),
        deps_clamp := Some (totalPages pr, currentPage st)\<rparr>"

text \<open>
  React renders again as long as a pass changed something; \<open>None\<close> is a component that
  never comes to rest.
\<close>

partial_function (option) settle :: "props \<Rightarrow> table_state \<Rightarrow> table_state option" where
  "settle pr st =
     (if render_pass pr st = st then Some st else settle pr (render_pass pr st))"

definition initial_state :: table_state where
  "initial_state =
     \<lparr>sortConfig = None, selectedRows = {||}, currentPage = 1,
      deps_reset = None, deps_clamp = None\<rparr>"

definition mount :: "props \<Rightarrow> table_state option" where
  "mount pr = settle pr initial_state"

text \<open>The parent renders the component with new props.\<close>

definition rerender :: "props \<Rightarrow> table_state \<Rightarrow> table_state option" where
  "rerender pr' st = settle pr' st"

datatype event =
    HeaderClick string "bool option"
  | RowToggle row
  | SelectAll
  | GoToNext
  | GoToPrev

fun handle :: "props \<Rightarrow> event \<Rightarrow> table_state \<Rightarrow> table_state \<times> row list list" where
  "handle pr (HeaderClick k sortable) st = (handleSort k sortable st, [])"
| "handle pr (RowToggle r) st = handleSelectRow pr r st"
| "handle pr SelectAll st = handleSelectAll pr st"
| "handle pr GoToNext st = (goToNext pr st, [])"
| "handle pr GoToPrev st = (goToPrev st, [])"

text \<open>An event runs its handler, then the component renders until it rests.\<close>

definition dispatch :: "props \<Rightarrow> event \<Rightarrow> table_state \<Rightarrow> (table_state \<times> row list list) option" where
  "dispatch pr ev st =
     (case handle pr ev st of (st', calls) \<Rightarrow>
        (case settle pr st' of None \<Rightarrow> None | Some st'' \<Rightarrow> Some (st'', calls)))"

fun dispatch_all :: "props \<Rightarrow> event list \<Rightarrow> table_state \<Rightarrow> table_state option" where
  "dispatch_all pr [] st = Some st"
| "dispatch_all pr (ev # evs) st =
     (case dispatch pr ev st of None \<Rightarrow> None | Some (st', calls) \<Rightarrow> dispatch_all pr evs st')"

text \<open>A state at rest under the props: both dependency arrays are those of the last render.\<close>

definition at_rest :: "props \<Rightarrow> table_state \<Rightarrow> bool" where
  "at_rest pr st \<longleftrightarrow>
     deps_reset st = Some (length (data pr)) \<and>
     deps_clamp st = Some (totalPages pr, currentPage st)"

fun is_navigation :: "event \<Rightarrow> bool" where
  "is_navigation GoToNext = True"
| "is_navigation GoToPrev = True"
| "is_navigation _ = False"

fun is_selection_event :: "event \<Rightarrow> bool" where
  "is_selection_event (RowToggle _) = True"
| "is_selection_event SelectAll = True"
| "is_selection_event _ = False"

text \<open>
  Where the renders come to rest: the page is the last one queued by the first pass (or
  the page as it was), and both dependency arrays are up to date with it.
\<close>

definition rest_state :: "props \<Rightarrow> table_state \<Rightarrow> table_state" where
  "rest_state pr st =
     st\<lparr>currentPage := foldl (\<lambda>p v. v) (currentPage st) (queued_pages pr st),
        deps_reset := Some (length (data pr)),
        deps_clamp :=
          Some (totalPages pr, foldl (\<lambda>p v. v) (currentPage st) (queued_pages pr st))\<rparr>"

definition page_in_range :: "props \<Rightarrow> table_state \<Rightarrow> bool" where
  "page_in_range pr st \<longleftrightarrow> 1 \<le> currentPage st \<and> currentPage st \<le> totalPages pr"

text \<open>The unsorted table at rest on page \<open>p\<close> with the selection \<open>sel\<close>.\<close>

definition at_page :: "props \<Rightarrow> cell fset \<Rightarrow> int \<Rightarrow> table_state" where
  "at_page pr sel p =
     \<lparr>sortConfig = None, selectedRows = sel, currentPage = p,
      deps_reset = Some (length (data pr)), deps_clamp = Some (totalPages pr, p)\<rparr>"

section \<open>Sample tables\<close>

text \<open>
  \<open>mockData\<close> is the table of the component's tests. \<open>tiedData\<close> has two rows of the same
  age, a \<open>null\<close> age and a missing one. \<open>otherData\<close> has string ids. \<open>rows_upto n\<close> has
  \<open>n\<close> rows with the ids 1 to \<open>n\<close>. \<open>labelData\<close> has a column of strings and a \<open>null\<close>.
  \<open>cyclicData\<close> and \<open>swapData\<close> have a column that holds two numbers and a string of
  digits.
\<close>

definition mockData :: "row list" where
  "mockData =
     [[(''id'', Num (Finite 1)), (''name'', Str ''Alice''), (''age'', Num (Finite 30)), (''status'', Str ''active'')],
      [(''id'', Num (Finite 2)), (''name'', Str ''Bob''), (''age'', Num (Finite 25)), (''status'', Str ''inactive'')],
      [(''id'', Num (Finite 3)), (''name'', Str ''Charlie''), (''age'', Num (Finite 35)), (''status'', Str ''active'')]]"


definition otherData :: "row list" where
  "otherData =
     [[(''id'', Str ''x1''), (''age'', Num (Finite 41))],
      [(''id'', Str ''x2''), (''age'', Num (Finite 19))]]"

fun rows_upto :: "nat \<Rightarrow> row list" where
  "rows_upto 0 = []"
| "rows_upto (Suc n) = rows_upto n @ [[(''id'', Num (Finite (real (Suc n))))]]"

definition table_props :: "row list \<Rightarrow> selection_mode \<Rightarrow> int \<Rightarrow> props" where
  "table_props d m p =
     \<lparr>data = d, selectable = True, selectionMode = m, onRowSelect = True, itemsPerPage = p\<rparr>"

definition by_age :: "direction \<Rightarrow> sort_config" where
  "by_age dir = \<lparr>key = ''age'', direction = dir\<rparr>"

definition labelData :: "row list" where
  "labelData =
     [[(''id'', Num (Finite 1)), (''label'', Str ''item10'')],
      [(''id'', Num (Finite 2)), (''label'', Str ''item1'')],
      [(''id'', Num (Finite 3)), (''label'', Str ''Item2'')],
      [(''id'', Num (Finite 4)), (''label'', Null)]]"

definition cyclicData :: "row list" where
  "cyclicData =
     [[(''id'', Num (Finite 1)), (''size'', Num (Finite 0.5))],
      [(''id'', Num (Finite 2)), (''size'', Num (Finite 0.125))],
      [(''id'', Num (Finite 3)), (''size'', Str ''0.25'')]]"


definition sort_by :: "string \<Rightarrow> direction \<Rightarrow> sort_config" where
  "sort_by k dir = \<lparr>key = k, direction = dir\<rparr>"

section \<open>The renders come to rest\<close>

lemma settle_fix: "render_pass pr st = st \<Longrightarrow> settle pr st = Some st"
  by (subst settle.simps) simp

lemma settle_step: "render_pass pr st \<noteq> st \<Longrightarrow> settle pr st = settle pr (render_pass pr st)"
  by (subst settle.simps) simp

lemma totalPages_ge1: "1 \<le> totalPages pr"
  by (simp add: totalPages_def)

lemma render_pass_rest: "render_pass pr (rest_state pr st) = rest_state pr st"
  using totalPages_ge1 [of pr]
  by (auto simp: render_pass_def rest_state_def queued_pages_def)

lemma render_pass_twice: "render_pass pr (render_pass pr st) = rest_state pr st"
  using totalPages_ge1 [of pr]
  by (auto simp: render_pass_def rest_state_def queued_pages_def)

text \<open>The component always comes to rest, after two passes at most, in \<open>rest_state\<close>.\<close>

lemma settle_eq: "settle pr st = Some (rest_state pr st)"
proof (cases "render_pass pr st = st")
  case True
  then have "rest_state pr st = st"
    using render_pass_twice [of pr st] by simp
  with True show ?thesis by (simp add: settle_fix)
next
  case False
  show ?thesis
  proof (cases "render_pass pr (render_pass pr st) = render_pass pr st")
    case True
    then show ?thesis
      using False settle_step [of pr st] settle_fix [of pr "render_pass pr st"]
        render_pass_twice [of pr st] by simp
  next
    case snd: False
    have "settle pr st = settle pr (rest_state pr st)"
      using False snd settle_step [of pr st] settle_step [of pr "render_pass pr st"]
        render_pass_twice [of pr st] by simp
    then show ?thesis
      using settle_fix [OF render_pass_rest] by simp
  qed
qed

lemma rest_state_frame:
  "sortConfig (rest_state pr st) = sortConfig st"
  "selectedRows (rest_state pr st) = selectedRows st"
  by (simp_all add: rest_state_def)

lemma at_rest_rest_state: "at_rest pr (rest_state pr st)"
  by (simp add: at_rest_def rest_state_def)

lemma dispatch_eq:
  "dispatch pr ev st = Some (rest_state pr (fst (handle pr ev st)), snd (handle pr ev st))"
  by (simp add: dispatch_def settle_eq split: prod.splits)

text \<open>
  The page after the parent passed new props to a table at rest: the reset effect fires
  when the number of rows changed, the clamp effect when the old page is beyond the new
  last page, and the clamp is queued last.
\<close>

lemma rerender_page:
  assumes "at_rest pr st" and "page_in_range pr st"
  shows "currentPage (rest_state pr' st) =
     (if length (data pr') = length (data pr)
      then (if currentPage st > totalPages pr' then totalPages pr' else currentPage st)
      else (if currentPage st > totalPages pr' then totalPages pr' else 1))"
  using assms
  by (auto simp: at_rest_def page_in_range_def rest_state_def queued_pages_def)

text \<open>The page stays between 1 and the number of pages: after the mount, new props and events.\<close>

lemma rerender_in_range:
  assumes "at_rest pr st" and "page_in_range pr st"
  shows "page_in_range pr' (rest_state pr' st)"
  using assms totalPages_ge1 [of pr'] rerender_page [OF assms, of pr']
  by (auto simp: page_in_range_def)

lemma at_page_simps:
  "selectedRows (at_page pr sel p) = sel"
  "currentPage (at_page pr sel p) = p"
  "sortConfig (at_page pr sel p) = None"
  "(at_page pr sel p)\<lparr>selectedRows := s\<rparr> = at_page pr s p"
  by (simp_all add: at_page_def)

lemma at_rest_at_page: "at_rest pr (at_page pr sel p)"
  by (simp add: at_rest_def at_page_def)

lemma rest_state_at_page:
  "currentPage st = p \<Longrightarrow> at_rest pr st \<Longrightarrow> rest_state pr st = st"
  by (simp add: at_rest_def rest_state_def queued_pages_def)

lemma mount_at_page: "mount pr = Some (at_page pr {||} 1)"
  using totalPages_ge1 [of pr]
  by (simp add: mount_def settle_eq rest_state_def queued_pages_def initial_state_def at_page_def)

lemma dispatch_next_at_page:
  "dispatch pr GoToNext (at_page pr sel p) = Some (at_page pr sel (min (p + 1) (totalPages pr)), [])"
  by (simp add: dispatch_eq goToNext_def rest_state_def queued_pages_def at_page_def)

lemma dispatch_prev_at_page:
  assumes "p \<le> totalPages pr"
  shows "dispatch pr GoToPrev (at_page pr sel p) = Some (at_page pr sel (max 1 (p - 1)), [])"
proof -
  have "\<not> totalPages pr < max 1 (p - 1)"
    using assms totalPages_ge1 [of pr] by simp
  then show ?thesis
    by (simp add: dispatch_eq goToPrev_def rest_state_def queued_pages_def at_page_def)
qed

lemma dispatch_toggle_at_page:
  "dispatch pr (RowToggle r) (at_page pr sel p) =
     Some (at_page pr (selectedRows (fst (handleSelectRow pr r (at_page pr sel p)))) p,
           snd (handleSelectRow pr r (at_page pr sel p)))"
  by (simp add: dispatch_eq handleSelectRow_def Let_def rest_state_def queued_pages_def
      at_page_def)

lemma mount_in_range:
  "mount pr = Some st \<Longrightarrow> at_rest pr st \<and> page_in_range pr st"
  using totalPages_ge1 [of pr]
  by (auto simp: mount_at_page at_rest_at_page page_in_range_def at_page_simps)

lemma handle_page_in_range:
  assumes "page_in_range pr st"
  shows "page_in_range pr (fst (handle pr ev st))"
  using assms totalPages_ge1 [of pr]
  by (cases ev)
     (auto simp: page_in_range_def goToNext_def goToPrev_def handleSort_def handleSelectRow_def
        handleSelectAll_def Let_def)

lemma rest_state_in_range:
  assumes "page_in_range pr st"
  shows "page_in_range pr (rest_state pr st)"
  using assms totalPages_ge1 [of pr]
  by (auto simp: page_in_range_def rest_state_def queued_pages_def)

lemma dispatch_in_range:
  assumes "page_in_range pr st" and "dispatch pr ev st = Some (st', calls)"
  shows "at_rest pr st' \<and> page_in_range pr st'"
  using assms rest_state_in_range [OF handle_page_in_range [OF assms(1), of ev]]
  by (auto simp: dispatch_eq at_rest_rest_state)

lemma rerender_at_page:
  "rerender pr' (at_page pr sel p) = Some (rest_state pr' (at_page pr sel p))"
  by (simp add: rerender_def settle_eq)

lemma dispatch_nav:
  "is_navigation ev \<Longrightarrow>
   \<exists>st'. dispatch pr ev st = Some (st', []) \<and> selectedRows st' = selectedRows st"
  by (cases ev) (simp_all add: dispatch_eq rest_state_frame goToNext_def goToPrev_def)

lemma length_rows_upto: "length (rows_upto n) = n"
  by (induction n) simp_all

section \<open>The header-click transition\<close>

text \<open>
  Claim C5. A click on a column that is not sortable (\<open>sortable\<close> false or not given)
  leaves the state as it is. A click on a sortable column \<open>k\<close> from the unsorted state,
  or from a sort on another key, gives ascending on \<open>k\<close>; three clicks in a row then give
  ascending, descending, ascending. Ascending on \<open>k\<close> goes to descending on \<open>k\<close> and back,
  and no click on a sortable column gives the unsorted state.
\<close>

theorem handleSort_transitions:
  "(sortable \<noteq> Some True \<longrightarrow> handleSort k sortable st = st) \<and>
   ((sortConfig st = None \<or> (\<exists>c. sortConfig st = Some c \<and> key c \<noteq> k)) \<longrightarrow>
      sortConfig (handleSort k (Some True) st) = Some \<lparr>key = k, direction = Asc\<rparr> \<and>
      sortConfig (handleSort k (Some True) (handleSort k (Some True) st))
        = Some \<lparr>key = k, direction = Desc\<rparr> \<and>
      sortConfig (handleSort k (Some True) (handleSort k (Some True) (handleSort k (Some True) st)))
        = Some \<lparr>key = k, direction = Asc\<rparr>) \<and>
   (sortConfig st = Some \<lparr>key = k, direction = Asc\<rparr> \<longrightarrow>
      sortConfig (handleSort k (Some True) st) = Some \<lparr>key = k, direction = Desc\<rparr>) \<and>
   (sortConfig st = Some \<lparr>key = k, direction = Desc\<rparr> \<longrightarrow>
      sortConfig (handleSort k (Some True) st) = Some \<lparr>key = k, direction = Asc\<rparr>) \<and>
   sortConfig (handleSort k (Some True) st) \<noteq> None"
  by (auto simp: handleSort_def split: option.splits)

theorem handleSort_transitions_witness:
  "handleSort ''status'' None initial_state = initial_state \<and>
   handleSort ''status'' (Some False) initial_state = initial_state \<and>
   sortConfig (handleSort ''age'' (Some True) initial_state) = Some \<lparr>key = ''age'', direction = Asc\<rparr> \<and>
   sortConfig (handleSort ''age'' (Some True) (handleSort ''age'' (Some True) initial_state))
     = Some \<lparr>key = ''age'', direction = Desc\<rparr> \<and>
   sortConfig (handleSort ''age'' (Some True) (handleSort ''age'' (Some True)
       (handleSort ''age'' (Some True) initial_state)))
     = Some \<lparr>key = ''age'', direction = Asc\<rparr> \<and>
   sortConfig (handleSort ''name'' (Some True) (handleSort ''age'' (Some True) initial_state))
     = Some \<lparr>key = ''name'', direction = Asc\<rparr>"
  using handleSort_transitions [of None "''status''" initial_state]
    handleSort_transitions [of "Some False" "''status''" initial_state]
    handleSort_transitions [of "Some True" "''age''" initial_state]
    handleSort_transitions [of "Some True" "''name''" "handleSort ''age'' (Some True) initial_state"]
  by (simp add: initial_state_def handleSort_def)

section \<open>Sorting with a consistent comparator\<close>

lemma consistent_on_subset:
  "consistent_on c ys \<Longrightarrow> set xs \<subseteq> set ys \<Longrightarrow> consistent_on c xs"
  unfolding consistent_on_def by (meson subsetD)

lemma consistent_flip:
  assumes "consistent_on c xs" "x \<in> set xs" "y \<in> set xs"
  shows "c x y > 0 \<Longrightarrow> c y x < 0" "c x y = 0 \<Longrightarrow> c y x = 0" "c x y < 0 \<Longrightarrow> c y x > 0"
proof -
  have s: "sgn (c y x) = - sgn (c x y)"
    using assms unfolding consistent_on_def by blast
  show "c x y > 0 \<Longrightarrow> c y x < 0" using s by (simp add: sgn_if split: if_splits)
  show "c x y = 0 \<Longrightarrow> c y x = 0" using s by (simp add: sgn_if split: if_splits)
  show "c x y < 0 \<Longrightarrow> c y x > 0" using s by (simp add: sgn_if split: if_splits)
qed

lemma consistent_trans:
  assumes "consistent_on c xs" "x \<in> set xs" "y \<in> set xs" "z \<in> set xs"
    "c x y \<le> 0" "c y z \<le> 0"
  shows "c x z \<le> 0"
  using assms unfolding consistent_on_def by blast

lemma sgn_flip_real: "sgn (b::real) = - sgn a \<Longrightarrow> (0 \<le> a) = (b \<le> 0)"
  by (cases "a < 0"; cases "a = 0"; cases "b < 0"; cases "b = 0") (simp_all add: sgn_if)

lemma consistent_ge:
  assumes "consistent_on c xs" "x \<in> set xs" "y \<in> set xs"
  shows "(0 \<le> c x y) = (c y x \<le> 0)"
proof -
  have "sgn (c y x) = - sgn (c x y)"
    using assms unfolding consistent_on_def by blast
  then show ?thesis by (rule sgn_flip_real)
qed

lemma consistent_refl:
  assumes "consistent_on c xs" "x \<in> set xs"
  shows "c x x = 0"
proof -
  have "sgn (c x x) = - sgn (c x x)"
    using assms unfolding consistent_on_def by blast
  then show ?thesis by (simp add: sgn_if split: if_splits)
qed

lemma sorted_stable_unique:
  assumes "consistent_on c (ys @ zs)"
    and "sorted_wrt (\<lambda>a b. c a b \<le> 0) ys" and "sorted_wrt (\<lambda>a b. c a b \<le> 0) zs"
    and "\<forall>x \<in> set (ys @ zs). filter (\<lambda>y. c x y = 0) ys = filter (\<lambda>y. c x y = 0) zs"
  shows "ys = zs"
  using assms
proof (induction ys arbitrary: zs)
  case Nil
  show ?case
  proof (cases zs)
    case Nil
    then show ?thesis by simp
  next
    case (Cons z zs')
    have "c z z = 0"
      using consistent_refl [OF Nil.prems(1), of z] Cons by simp
    moreover have "filter (\<lambda>y. c z y = 0) [] = filter (\<lambda>y. c z y = 0) zs"
      using Nil.prems(4) Cons by simp
    ultimately show ?thesis using Cons by simp
  qed
next
  case (Cons y ys')
  have yy: "c y y = 0"
    using consistent_refl [OF Cons.prems(1), of y] by simp
  have "filter (\<lambda>a. c y a = 0) (y # ys') = filter (\<lambda>a. c y a = 0) zs"
    using Cons.prems(4) by (rule bspec) simp
  then have fy: "filter (\<lambda>a. c y a = 0) zs = y # filter (\<lambda>a. c y a = 0) ys'"
    using yy by simp
  then obtain z zs' where zs: "zs = z # zs'"
    by (cases zs) auto
  have zz: "c z z = 0"
    using consistent_refl [OF Cons.prems(1), of z] zs by simp
  have "filter (\<lambda>a. c z a = 0) (y # ys') = filter (\<lambda>a. c z a = 0) zs"
    using Cons.prems(4) by (rule bspec) (simp add: zs)
  then have fz: "filter (\<lambda>a. c z a = 0) (y # ys') = z # filter (\<lambda>a. c z a = 0) zs'"
    using zs zz by simp
  have mem: "y \<in> set (y # ys' @ zs)" "z \<in> set (y # ys' @ zs)"
    using zs by simp_all
  have "z = y"
  proof (cases "c y z = 0")
    case True
    with fy zs show ?thesis by simp
  next
    case False
    then have zy: "c z y \<noteq> 0"
      using consistent_flip(2) [OF Cons.prems(1), of z y] mem by auto
    from fz zy have "filter (\<lambda>a. c z a = 0) ys' = z # filter (\<lambda>a. c z a = 0) zs'"
      by simp
    then have "z \<in> set (filter (\<lambda>a. c z a = 0) ys')"
      by simp
    then have "z \<in> set ys'"
      by simp
    then have 1: "c y z \<le> 0" using Cons.prems(2) by simp
    from fy False zs have "filter (\<lambda>a. c y a = 0) zs' = y # filter (\<lambda>a. c y a = 0) ys'"
      by simp
    then have "y \<in> set (filter (\<lambda>a. c y a = 0) zs')"
      by simp
    then have "y \<in> set zs'"
      by simp
    then have 2: "c z y \<le> 0" using Cons.prems(3) zs by simp
    from 1 False have "c y z < 0" by simp
    then have "c z y > 0"
      using consistent_flip(3) [OF Cons.prems(1), of y z] mem by auto
    with 2 show ?thesis by simp
  qed
  have "ys' = zs'"
  proof (rule Cons.IH)
    show "consistent_on c (ys' @ zs')"
      using Cons.prems(1) by (rule consistent_on_subset) (auto simp: zs)
    show "sorted_wrt (\<lambda>a b. c a b \<le> 0) ys'" using Cons.prems(2) by simp
    show "sorted_wrt (\<lambda>a b. c a b \<le> 0) zs'" using Cons.prems(3) zs by simp
    show "\<forall>x \<in> set (ys' @ zs'). filter (\<lambda>y. c x y = 0) ys' = filter (\<lambda>y. c x y = 0) zs'"
    proof
      fix x assume "x \<in> set (ys' @ zs')"
      then have "x \<in> set ((y # ys') @ zs)" using zs by auto
      with Cons.prems(4) have "filter (\<lambda>a. c x a = 0) (y # ys') = filter (\<lambda>a. c x a = 0) zs"
        by (rule bspec)
      then have "filter (\<lambda>a. c x a = 0) (y # ys') = filter (\<lambda>a. c x a = 0) (y # zs')"
        using zs \<open>z = y\<close> by simp
      then show "filter (\<lambda>y. c x y = 0) ys' = filter (\<lambda>y. c x y = 0) zs'"
        by (cases "c x y = 0") simp_all
    qed
  qed
  with zs \<open>z = y\<close> show ?case by simp
qed

lemma consistent_on_neg:
  assumes "consistent_on c xs"
  shows "consistent_on (\<lambda>x y. - c x y) xs"
  unfolding consistent_on_def
proof (intro ballI conjI impI)
  fix x y assume "x \<in> set xs" "y \<in> set xs"
  then have "sgn (c y x) = - sgn (c x y)"
    using assms unfolding consistent_on_def by blast
  then show "sgn (- c y x) = - sgn (- c x y)"
    by (simp only: sgn_minus)
next
  fix x y z assume in_xs: "x \<in> set xs" "y \<in> set xs" "z \<in> set xs"
    and h: "- c x y \<le> 0 \<and> - c y z \<le> 0"
  have "c z y \<le> 0"
    using consistent_ge [OF assms in_xs(2,3)] h by simp
  moreover have "c y x \<le> 0"
    using consistent_ge [OF assms in_xs(1,2)] h by simp
  ultimately have "c z x \<le> 0"
    using consistent_trans [OF assms in_xs(3,2,1)] by simp
  then have "0 \<le> c x z"
    using consistent_ge [OF assms in_xs(1,3)] by simp
  then show "- c x z \<le> 0" by simp
qed

lemma consistent_lt_le_trans:
  assumes "consistent_on c xs" "a \<in> set xs" "b \<in> set xs" "d \<in> set xs"
    and "c a b < 0" "c b d \<le> 0"
  shows "c a d < 0"
proof -
  have le: "c a d \<le> 0"
    using consistent_trans [OF assms(1-4)] assms(5,6) by simp
  have "c a d \<noteq> 0"
  proof
    assume "c a d = 0"
    then have "c d a \<le> 0"
      using consistent_flip(2) [OF assms(1,2,4)] by simp
    then have "c b a \<le> 0"
      using consistent_trans [OF assms(1,3,4,2)] assms(6) by simp
    moreover have "c b a > 0"
      using consistent_flip(3) [OF assms(1,2,3)] assms(5) by simp
    ultimately show False by simp
  qed
  with le show ?thesis by simp
qed

lemma consistent_le_lt_trans:
  assumes "consistent_on c xs" "a \<in> set xs" "b \<in> set xs" "d \<in> set xs"
    and "c a b \<le> 0" "c b d < 0"
  shows "c a d < 0"
proof -
  have le: "c a d \<le> 0"
    using consistent_trans [OF assms(1-4)] assms(5,6) by simp
  have "c a d \<noteq> 0"
  proof
    assume "c a d = 0"
    then have "c d a \<le> 0"
      using consistent_flip(2) [OF assms(1,2,4)] by simp
    then have "c d b \<le> 0"
      using consistent_trans [OF assms(1,4,2,3)] assms(5) by simp
    moreover have "c d b > 0"
      using consistent_flip(3) [OF assms(1,3,4)] assms(6) by simp
    ultimately show False by simp
  qed
  with le show ?thesis by simp
qed

lemma consistent_eq_trans:
  assumes "consistent_on c xs" "x \<in> set xs" "a \<in> set xs" "b \<in> set xs"
    and "c x a = 0" "c x b = 0"
  shows "c a b = 0"
proof -
  have ax: "c a x = 0" and bx: "c b x = 0"
    using consistent_flip(2) [OF assms(1,2,3)] consistent_flip(2) [OF assms(1,2,4)] assms(5,6)
    by simp_all
  have "c a b \<le> 0"
    using consistent_trans [OF assms(1,3,2,4)] ax assms(6) by simp
  moreover have "c b a \<le> 0"
    using consistent_trans [OF assms(1,4,2,3)] bx assms(5) by simp
  then have "0 \<le> c a b"
    using consistent_ge [OF assms(1,3,4)] by simp
  ultimately show ?thesis by simp
qed

subsection \<open>The run\<close>

lemma ascending_run_append:
  "ascending_run c prev ys = (run, rest) \<Longrightarrow> run @ rest = ys"
  by (induction ys arbitrary: prev run rest) (auto split: if_splits prod.splits)

lemma descending_run_append:
  "descending_run c prev ys = (run, rest) \<Longrightarrow> run @ rest = ys"
  by (induction ys arbitrary: prev run rest) (auto split: if_splits prod.splits)

lemma ascending_run_sorted:
  assumes "consistent_on c (prev # ys)" and "ascending_run c prev ys = (run, rest)"
  shows "sorted_wrt (\<lambda>a b. c a b \<le> 0) (prev # run)"
  using assms
proof (induction ys arbitrary: prev run rest)
  case Nil
  then show ?case by simp
next
  case (Cons y ys)
  show ?case
  proof (cases "c y prev < 0")
    case True
    with Cons.prems show ?thesis by simp
  next
    case False
    then obtain run' where run: "ascending_run c y ys = (run', rest)" "run = y # run'"
      using Cons.prems(2) by (auto split: prod.splits)
    have sub: "consistent_on c (y # ys)"
      using Cons.prems(1) by (rule consistent_on_subset) auto
    have ih: "sorted_wrt (\<lambda>a b. c a b \<le> 0) (y # run')"
      using Cons.IH [OF sub run(1)] .
    have in_ys: "set run' \<subseteq> set ys"
      using ascending_run_append [OF run(1)] by auto
    have py: "c prev y \<le> 0"
      using consistent_ge [OF Cons.prems(1), of y prev] False by simp
    have "c prev z \<le> 0" if "z \<in> set run'" for z
    proof -
      have "c y z \<le> 0" using ih that by simp
      then show ?thesis
        using consistent_trans [OF Cons.prems(1), of prev y z] py that in_ys by auto
    qed
    with py ih run(2) show ?thesis by auto
  qed
qed

lemma descending_run_sorted:
  assumes "consistent_on c (prev # ys)" and "descending_run c prev ys = (run, rest)"
  shows "sorted_wrt (\<lambda>a b. c b a < 0) (prev # run)"
  using assms
proof (induction ys arbitrary: prev run rest)
  case Nil
  then show ?case by simp
next
  case (Cons y ys)
  show ?case
  proof (cases "c y prev < 0")
    case False
    with Cons.prems show ?thesis by simp
  next
    case True
    then obtain run' where run: "descending_run c y ys = (run', rest)" "run = y # run'"
      using Cons.prems(2) by (auto split: prod.splits)
    have sub: "consistent_on c (y # ys)"
      using Cons.prems(1) by (rule consistent_on_subset) auto
    have ih: "sorted_wrt (\<lambda>a b. c b a < 0) (y # run')"
      using Cons.IH [OF sub run(1)] .
    have in_ys: "set run' \<subseteq> set ys"
      using descending_run_append [OF run(1)] by auto
    have "c z prev < 0" if "z \<in> set run'" for z
    proof -
      have "c z y < 0" using ih that by simp
      then show ?thesis
        using consistent_lt_le_trans [OF Cons.prems(1), of z y prev] True that in_ys by auto
    qed
    with True ih run(2) show ?thesis by auto
  qed
qed

lemma strict_run_filter_rev:
  assumes "consistent_on c (x # r)" and "sorted_wrt (\<lambda>a b. c b a < 0) r"
  shows "filter (\<lambda>y. c x y = 0) (rev r) = filter (\<lambda>y. c x y = 0) r"
  using assms
proof (induction r)
  case Nil
  then show ?case by simp
next
  case (Cons a r)
  have sub: "consistent_on c (x # r)"
    using Cons.prems(1) by (rule consistent_on_subset) auto
  have ih: "filter (\<lambda>y. c x y = 0) (rev r) = filter (\<lambda>y. c x y = 0) r"
    using Cons.IH [OF sub] Cons.prems(2) by simp
  show ?case
  proof (cases "c x a = 0")
    case False
    with ih show ?thesis by simp
  next
    case True
    have "c x e \<noteq> 0" if "e \<in> set r" for e
    proof
      assume "c x e = 0"
      then have "c e a = 0"
        using consistent_eq_trans [OF Cons.prems(1), of x e a] True that by simp
      moreover have "c e a < 0" using Cons.prems(2) that by simp
      ultimately show False by simp
    qed
    then have "filter (\<lambda>y. c x y = 0) r = []"
      by (simp add: filter_empty_conv)
    with ih True show ?thesis by simp
  qed
qed

lemma CountAndMakeRun_mset:
  "CountAndMakeRun c xs = (run, rest) \<Longrightarrow> mset run + mset rest = mset xs"
proof (induction c xs rule: CountAndMakeRun.induct)
  case (1 c x y ys)
  then show ?case
    by (auto split: if_splits prod.splits
        dest!: ascending_run_append descending_run_append)
qed auto

lemma CountAndMakeRun_sorted:
  assumes "consistent_on c xs" and "CountAndMakeRun c xs = (run, rest)"
  shows "sorted_wrt (\<lambda>a b. c a b \<le> 0) run"
  using assms
proof (induction c xs rule: CountAndMakeRun.induct)
  case (1 c x y ys)
  have sub: "consistent_on c (y # ys)"
    using "1.prems"(1) by (rule consistent_on_subset) auto
  show ?case
  proof (cases "c y x < 0")
    case True
    then obtain r where r: "descending_run c y ys = (r, rest)" "run = rev (x # y # r)"
      using "1.prems"(2) by (auto split: prod.splits)
    have s: "sorted_wrt (\<lambda>a b. c b a < 0) (y # r)"
      using descending_run_sorted [OF sub r(1)] .
    have in_ys: "set r \<subseteq> set ys"
      using descending_run_append [OF r(1)] by auto
    have "c z x < 0" if "z \<in> set r" for z
    proof -
      have "c z y < 0" using s that by simp
      then show ?thesis
        using consistent_lt_le_trans [OF "1.prems"(1), of z y x] True that in_ys by auto
    qed
    with True s have "sorted_wrt (\<lambda>a b. c b a < 0) (x # y # r)" by auto
    then have "sorted_wrt (\<lambda>a b. c a b < 0) (rev (x # y # r))"
      by (simp only: sorted_wrt_rev)
    then have "sorted_wrt (\<lambda>a b. c a b \<le> 0) (rev (x # y # r))"
      by (rule sorted_wrt_mono_rel [rotated]) simp
    with r(2) show ?thesis by simp
  next
    case False
    then obtain r where r: "ascending_run c y ys = (r, rest)" "run = x # y # r"
      using "1.prems"(2) by (auto split: prod.splits)
    have s: "sorted_wrt (\<lambda>a b. c a b \<le> 0) (y # r)"
      using ascending_run_sorted [OF sub r(1)] .
    have in_ys: "set r \<subseteq> set ys"
      using ascending_run_append [OF r(1)] by auto
    have xy: "c x y \<le> 0"
      using consistent_ge [OF "1.prems"(1), of y x] False by simp
    have "c x z \<le> 0" if "z \<in> set r" for z
    proof -
      have "c y z \<le> 0" using s that by simp
      then show ?thesis
        using consistent_trans [OF "1.prems"(1), of x y z] xy that in_ys by auto
    qed
    with xy s r(2) show ?thesis by auto
  qed
qed auto

lemma CountAndMakeRun_filter:
  assumes "consistent_on c (x # xs)" and "CountAndMakeRun c xs = (run, rest)"
  shows "filter (\<lambda>y. c x y = 0) run @ filter (\<lambda>y. c x y = 0) rest = filter (\<lambda>y. c x y = 0) xs"
  using assms
proof (induction c xs rule: CountAndMakeRun.induct)
  case (1 c a b ys)
  show ?case
  proof (cases "c b a < 0")
    case False
    then obtain r where r: "ascending_run c b ys = (r, rest)" "run = a # b # r"
      using "1.prems"(2) by (auto split: prod.splits)
    have "r @ rest = ys" using ascending_run_append [OF r(1)] .
    then have "filter (\<lambda>y. c x y = 0) ys
        = filter (\<lambda>y. c x y = 0) r @ filter (\<lambda>y. c x y = 0) rest"
      by (metis filter_append)
    with r(2) show ?thesis by simp
  next
    case True
    then obtain r where r: "descending_run c b ys = (r, rest)" "run = rev (a # b # r)"
      using "1.prems"(2) by (auto split: prod.splits)
    have app: "r @ rest = ys" using descending_run_append [OF r(1)] .
    then have in_ys: "set r \<subseteq> set ys" by auto
    have cons: "consistent_on c (a # b # ys)"
      using "1.prems"(1) by (rule consistent_on_subset) auto
    have run_sorted: "sorted_wrt (\<lambda>a b. c a b \<le> 0) run"
      using CountAndMakeRun_sorted [OF cons "1.prems"(2)] .
    have sub: "consistent_on c (b # ys)"
      using cons by (rule consistent_on_subset) auto
    have s: "sorted_wrt (\<lambda>a b. c b a < 0) (b # r)"
      using descending_run_sorted [OF sub r(1)] .
    have "c z a < 0" if "z \<in> set r" for z
    proof -
      have "c z b < 0" using s that by simp
      then show ?thesis
        using consistent_lt_le_trans [OF cons, of z b a] True that in_ys by auto
    qed
    with True s have strict: "sorted_wrt (\<lambda>a b. c b a < 0) (a # b # r)" by auto
    have "consistent_on c (x # a # b # r)"
      using "1.prems"(1) by (rule consistent_on_subset) (use in_ys in auto)
    then have "filter (\<lambda>y. c x y = 0) (rev (a # b # r)) = filter (\<lambda>y. c x y = 0) (a # b # r)"
      using strict by (rule strict_run_filter_rev)
    moreover have "filter (\<lambda>y. c x y = 0) ys
        = filter (\<lambda>y. c x y = 0) r @ filter (\<lambda>y. c x y = 0) rest"
      using app by (metis filter_append)
    ultimately show ?thesis using r(2) by simp
  qed
qed auto

subsection \<open>Binary insertion\<close>

lemma binary_search_bounds:
  "left \<le> right \<Longrightarrow>
   left \<le> binary_search c p ws left right \<and> binary_search c p ws left right \<le> right"
proof (induction c p ws left right rule: binary_search.induct)
  case (1 c p ws left right)
  show ?case
  proof (cases "left < right")
    case False
    with "1.prems" show ?thesis by (simp add: binary_search.simps)
  next
    case True
    let ?mid = "left + (right - left) div 2"
    have mid: "left \<le> ?mid" "?mid < right" using True by auto
    show ?thesis
    proof (cases "c p (ws ! ?mid) < 0")
      case lt: True
      have "left \<le> binary_search c p ws left ?mid \<and> binary_search c p ws left ?mid \<le> ?mid"
        using "1.IH"(1) [OF True lt] mid by simp
      with True lt mid show ?thesis
        by (subst (1 2) binary_search.simps) simp
    next
      case ge: False
      have "?mid + 1 \<le> binary_search c p ws (?mid + 1) right \<and>
            binary_search c p ws (?mid + 1) right \<le> right"
        using "1.IH"(2) [OF True ge] mid by simp
      with True ge mid show ?thesis
        by (subst (1 2) binary_search.simps) simp
    qed
  qed
qed

lemma binary_search_split:
  assumes "consistent_on c (p # ws)" and "sorted_wrt (\<lambda>a b. c a b \<le> 0) ws"
    and "left \<le> right" and "right \<le> length ws"
    and "\<forall>i < left. \<not> c p (ws ! i) < 0"
    and "\<forall>i. right \<le> i \<and> i < length ws \<longrightarrow> c p (ws ! i) < 0"
  shows "(\<forall>i < binary_search c p ws left right. \<not> c p (ws ! i) < 0) \<and>
         (\<forall>i. binary_search c p ws left right \<le> i \<and> i < length ws \<longrightarrow> c p (ws ! i) < 0)"
  using assms
proof (induction c p ws left right rule: binary_search.induct)
  case (1 c p ws left right)
  show ?case
  proof (cases "left < right")
    case False
    then have "binary_search c p ws left right = left"
      by (simp add: binary_search.simps)
    with False "1.prems" show ?thesis by simp
  next
    case True
    let ?mid = "left + (right - left) div 2"
    have mid: "left \<le> ?mid" "?mid < right" "?mid < length ws"
      using True "1.prems"(4) by auto
    have mem: "ws ! ?mid \<in> set (p # ws)" "p \<in> set (p # ws)"
      using mid by simp_all
    show ?thesis
    proof (cases "c p (ws ! ?mid) < 0")
      case lt: True
      have eq: "binary_search c p ws left right = binary_search c p ws left ?mid"
        using True lt by (subst binary_search.simps) simp
      have above: "\<forall>i. ?mid \<le> i \<and> i < length ws \<longrightarrow> c p (ws ! i) < 0"
      proof (intro allI impI)
        fix i assume i: "?mid \<le> i \<and> i < length ws"
        show "c p (ws ! i) < 0"
        proof (cases "i = ?mid")
          case True
          with lt show ?thesis by simp
        next
          case False
          with i have "?mid < i" by simp
          then have "c (ws ! ?mid) (ws ! i) \<le> 0"
            using sorted_wrt_nth_less [OF "1.prems"(2), of ?mid i] i by simp
          then show ?thesis
            using consistent_lt_le_trans [OF "1.prems"(1) mem(2,1), of "ws ! i"] lt i by simp
        qed
      qed
      show ?thesis
        unfolding eq
        using "1.IH"(1) [OF True lt "1.prems"(1,2)] mid "1.prems"(5) above by simp
    next
      case ge: False
      have eq: "binary_search c p ws left right = binary_search c p ws (?mid + 1) right"
        using True ge by (subst binary_search.simps) simp
      have mp: "c (ws ! ?mid) p \<le> 0"
        using consistent_ge [OF "1.prems"(1) mem(2,1)] ge by simp
      have below: "\<forall>i < ?mid + 1. \<not> c p (ws ! i) < 0"
      proof (intro allI impI)
        fix i assume i: "i < ?mid + 1"
        show "\<not> c p (ws ! i) < 0"
        proof (cases "i = ?mid")
          case True
          with ge show ?thesis by simp
        next
          case False
          with i have "i < ?mid" by simp
          then have "c (ws ! i) (ws ! ?mid) \<le> 0"
            using sorted_wrt_nth_less [OF "1.prems"(2), of i ?mid] mid by simp
          moreover have im: "ws ! i \<in> set (p # ws)"
            using i mid by simp
          ultimately have "c (ws ! i) p \<le> 0"
            using consistent_trans [OF "1.prems"(1) im mem(1,2)] mp by simp
          then show ?thesis
            using consistent_ge [OF "1.prems"(1) mem(2) im] by simp
        qed
      qed
      show ?thesis
        unfolding eq
        using "1.IH"(2) [OF True ge "1.prems"(1,2)] mid "1.prems"(4,6) below by simp
    qed
  qed
qed

lemma insert_pivot_parts:
  assumes "consistent_on c (p # ws)" and "sorted_wrt (\<lambda>a b. c a b \<le> 0) ws"
  shows "\<forall>e \<in> set (take (binary_search c p ws 0 (length ws)) ws). c e p \<le> 0"
    and "\<forall>e \<in> set (drop (binary_search c p ws 0 (length ws)) ws). c p e < 0"
proof -
  let ?k = "binary_search c p ws 0 (length ws)"
  have split: "(\<forall>i < ?k. \<not> c p (ws ! i) < 0) \<and>
      (\<forall>i. ?k \<le> i \<and> i < length ws \<longrightarrow> c p (ws ! i) < 0)"
    using binary_search_split [OF assms, of 0 "length ws"] by simp
  have k: "?k \<le> length ws"
    using binary_search_bounds [of 0 "length ws" c p ws] by simp
  show "\<forall>e \<in> set (take ?k ws). c e p \<le> 0"
  proof
    fix e assume "e \<in> set (take ?k ws)"
    then obtain i where i: "i < ?k" "e = ws ! i"
      using k by (auto simp: in_set_conv_nth)
    then have "\<not> c p e < 0" using split by simp
    moreover have "e \<in> set (p # ws)" using i k by simp
    ultimately show "c e p \<le> 0"
      using consistent_ge [OF assms(1), of p e] by simp
  qed
  show "\<forall>e \<in> set (drop ?k ws). c p e < 0"
  proof
    fix e assume "e \<in> set (drop ?k ws)"
    then obtain i where i: "i < length ws - ?k" "e = ws ! (?k + i)"
      by (auto simp: in_set_conv_nth)
    then show "c p e < 0" using split by simp
  qed
qed

lemma mset_insert_pivot: "mset (insert_pivot c ws p) = add_mset p (mset ws)"
proof -
  have "mset (take k ws) + mset (drop k ws) = mset ws" for k
    by (metis append_take_drop_id mset_append)
  then show ?thesis by (simp add: insert_pivot_def)
qed

lemma set_insert_pivot: "set (insert_pivot c ws p) = insert p (set ws)"
  using mset_insert_pivot [of c ws p] by (metis set_mset_add_mset_insert set_mset_mset)

lemma insert_pivot_sorted:
  assumes "consistent_on c (p # ws)" and "sorted_wrt (\<lambda>a b. c a b \<le> 0) ws"
  shows "sorted_wrt (\<lambda>a b. c a b \<le> 0) (insert_pivot c ws p)"
proof -
  let ?k = "binary_search c p ws 0 (length ws)"
  have app: "sorted_wrt (\<lambda>a b. c a b \<le> 0) (take ?k ws @ drop ?k ws)"
    using assms(2) by simp
  note parts = app [unfolded sorted_wrt_append]
  have "\<forall>e \<in> set (drop ?k ws). c p e \<le> 0"
    using insert_pivot_parts(2) [OF assms] by fastforce
  with parts insert_pivot_parts(1) [OF assms] show ?thesis
    by (simp add: insert_pivot_def sorted_wrt_append)
qed

lemma insert_pivot_filter:
  assumes "consistent_on c (x # p # ws)" and "sorted_wrt (\<lambda>a b. c a b \<le> 0) ws"
  shows "filter (\<lambda>y. c x y = 0) (insert_pivot c ws p)
       = filter (\<lambda>y. c x y = 0) ws @ filter (\<lambda>y. c x y = 0) [p]"
proof -
  let ?k = "binary_search c p ws 0 (length ws)"
  have sub: "consistent_on c (p # ws)"
    using assms(1) by (rule consistent_on_subset) auto
  have ws: "filter (\<lambda>y. c x y = 0) ws
      = filter (\<lambda>y. c x y = 0) (take ?k ws) @ filter (\<lambda>y. c x y = 0) (drop ?k ws)"
    by (metis append_take_drop_id filter_append)
  show ?thesis
  proof (cases "c x p = 0")
    case False
    with ws show ?thesis by (simp add: insert_pivot_def)
  next
    case True
    have "c x e \<noteq> 0" if "e \<in> set (drop ?k ws)" for e
    proof
      assume "c x e = 0"
      moreover have "e \<in> set ws" using that by (rule in_set_dropD)
      ultimately have "c p e = 0"
        using consistent_eq_trans [OF assms(1), of x p e] True by simp
      moreover have "c p e < 0"
        using insert_pivot_parts(2) [OF sub assms(2)] that by simp
      ultimately show False by simp
    qed
    then have "filter (\<lambda>y. c x y = 0) (drop ?k ws) = []"
      by (simp add: filter_empty_conv)
    with ws True show ?thesis by (simp add: insert_pivot_def)
  qed
qed

lemma mset_BinaryInsertionSort:
  "mset (BinaryInsertionSort c run rest) = mset run + mset rest"
  unfolding BinaryInsertionSort_def
  by (induction rest arbitrary: run) (simp_all add: mset_insert_pivot)

lemma BinaryInsertionSort_sorted:
  assumes "consistent_on c (run @ rest)" and "sorted_wrt (\<lambda>a b. c a b \<le> 0) run"
  shows "sorted_wrt (\<lambda>a b. c a b \<le> 0) (BinaryInsertionSort c run rest)"
  using assms unfolding BinaryInsertionSort_def
proof (induction rest arbitrary: run)
  case Nil
  then show ?case by simp
next
  case (Cons p rest)
  have "consistent_on c (p # run)"
    using Cons.prems(1) by (rule consistent_on_subset) auto
  then have s: "sorted_wrt (\<lambda>a b. c a b \<le> 0) (insert_pivot c run p)"
    using Cons.prems(2) by (rule insert_pivot_sorted)
  have "consistent_on c (insert_pivot c run p @ rest)"
    using Cons.prems(1) by (rule consistent_on_subset) (auto simp: set_insert_pivot)
  then show ?case using Cons.IH s by simp
qed

lemma BinaryInsertionSort_filter:
  assumes "consistent_on c (x # run @ rest)" and "sorted_wrt (\<lambda>a b. c a b \<le> 0) run"
  shows "filter (\<lambda>y. c x y = 0) (BinaryInsertionSort c run rest)
       = filter (\<lambda>y. c x y = 0) run @ filter (\<lambda>y. c x y = 0) rest"
  using assms unfolding BinaryInsertionSort_def
proof (induction rest arbitrary: run)
  case Nil
  then show ?case by simp
next
  case (Cons p rest)
  have c1: "consistent_on c (p # run)"
    using Cons.prems(1) by (rule consistent_on_subset) auto
  have s: "sorted_wrt (\<lambda>a b. c a b \<le> 0) (insert_pivot c run p)"
    using c1 Cons.prems(2) by (rule insert_pivot_sorted)
  have c2: "consistent_on c (x # insert_pivot c run p @ rest)"
    using Cons.prems(1) by (rule consistent_on_subset) (auto simp: set_insert_pivot)
  have c3: "consistent_on c (x # p # run)"
    using Cons.prems(1) by (rule consistent_on_subset) auto
  have "filter (\<lambda>y. c x y = 0) (foldl (insert_pivot c) (insert_pivot c run p) rest)
      = filter (\<lambda>y. c x y = 0) (insert_pivot c run p) @ filter (\<lambda>y. c x y = 0) rest"
    using Cons.IH [OF c2 s] .
  also have "filter (\<lambda>y. c x y = 0) (insert_pivot c run p)
      = filter (\<lambda>y. c x y = 0) run @ filter (\<lambda>y. c x y = 0) [p]"
    using c3 Cons.prems(2) by (rule insert_pivot_filter)
  finally show ?case by simp
qed

subsection \<open>The sort\<close>

lemma mset_ArrayTimSort: "mset (ArrayTimSort c xs) = mset xs"
  by (auto simp: ArrayTimSort_def mset_BinaryInsertionSort split: prod.splits
      dest: CountAndMakeRun_mset)

lemma set_ArrayTimSort: "set (ArrayTimSort c xs) = set xs"
  using mset_ArrayTimSort [of c xs] by (metis set_mset_mset)

lemma length_ArrayTimSort: "length (ArrayTimSort c xs) = length xs"
  using mset_ArrayTimSort [of c xs] by (metis size_mset)

lemma ArrayTimSort_sorted:
  assumes "consistent_on c xs"
  shows "sorted_wrt (\<lambda>a b. c a b \<le> 0) (ArrayTimSort c xs)"
proof -
  obtain run rest where r: "CountAndMakeRun c xs = (run, rest)"
    by (cases "CountAndMakeRun c xs")
  have "set run \<union> set rest = set xs"
    using CountAndMakeRun_mset [OF r] by (metis set_mset_mset set_mset_union)
  then have "consistent_on c (run @ rest)"
    using assms by (auto intro: consistent_on_subset)
  then show ?thesis
    using CountAndMakeRun_sorted [OF assms r] r
    by (simp add: ArrayTimSort_def BinaryInsertionSort_sorted)
qed

lemma ArrayTimSort_filter:
  assumes "consistent_on c (x # xs)"
  shows "filter (\<lambda>y. c x y = 0) (ArrayTimSort c xs) = filter (\<lambda>y. c x y = 0) xs"
proof -
  obtain run rest where r: "CountAndMakeRun c xs = (run, rest)"
    by (cases "CountAndMakeRun c xs")
  have sub: "consistent_on c xs"
    using assms by (rule consistent_on_subset) auto
  have "set run \<union> set rest = set xs"
    using CountAndMakeRun_mset [OF r] by (metis set_mset_mset set_mset_union)
  then have "consistent_on c (x # run @ rest)"
    using assms by (auto intro: consistent_on_subset)
  then have "filter (\<lambda>y. c x y = 0) (BinaryInsertionSort c run rest)
      = filter (\<lambda>y. c x y = 0) run @ filter (\<lambda>y. c x y = 0) rest"
    using CountAndMakeRun_sorted [OF sub r] by (rule BinaryInsertionSort_filter)
  with CountAndMakeRun_filter [OF assms r] r show ?thesis
    by (simp add: ArrayTimSort_def)
qed


text \<open>
  Where the comparator is consistent, the result does not depend on the sorting algorithm:
  a list that is ordered by the comparator and keeps the rows that compare equal in
  their input order is the list \<open>array_sort\<close> returns.
\<close>

lemma mset_array_sort: "mset (array_sort comparefn xs) = mset xs"
  by (simp add: array_sort_def mset_ArrayTimSort)

lemma length_array_sort: "length (array_sort comparefn xs) = length xs"
  by (simp add: array_sort_def length_ArrayTimSort)

lemma array_sort_unique:
  assumes "consistent_on (SortCompare comparefn) xs" and "set ys = set xs"
    and "sorted_wrt (\<lambda>a b. SortCompare comparefn a b \<le> 0) ys"
    and "\<forall>x \<in> set xs. filter (\<lambda>y. SortCompare comparefn x y = 0) ys
           = filter (\<lambda>y. SortCompare comparefn x y = 0) xs"
  shows "ys = array_sort comparefn xs"
  unfolding array_sort_def
proof (rule sorted_stable_unique)
  let ?c = "SortCompare comparefn"
  show "consistent_on ?c (ys @ ArrayTimSort ?c xs)"
    using assms(1) by (rule consistent_on_subset) (simp add: assms(2) set_ArrayTimSort)
  show "sorted_wrt (\<lambda>a b. ?c a b \<le> 0) ys" by (rule assms(3))
  show "sorted_wrt (\<lambda>a b. ?c a b \<le> 0) (ArrayTimSort ?c xs)"
    using assms(1) by (rule ArrayTimSort_sorted)
  show "\<forall>x \<in> set (ys @ ArrayTimSort ?c xs).
      filter (\<lambda>y. ?c x y = 0) ys = filter (\<lambda>y. ?c x y = 0) (ArrayTimSort ?c xs)"
  proof
    fix x assume "x \<in> set (ys @ ArrayTimSort ?c xs)"
    then have x: "x \<in> set xs" by (simp add: assms(2) set_ArrayTimSort)
    then have "consistent_on ?c (x # xs)"
      using assms(1) by (auto intro: consistent_on_subset)
    then have "filter (\<lambda>y. ?c x y = 0) (ArrayTimSort ?c xs) = filter (\<lambda>y. ?c x y = 0) xs"
      by (rule ArrayTimSort_filter)
    with assms(4) x show "filter (\<lambda>y. ?c x y = 0) ys = filter (\<lambda>y. ?c x y = 0) (ArrayTimSort ?c xs)"
      by simp
  qed
qed

subsection \<open>Columns on which the comparator is consistent\<close>

lemma consistent_on_key:
  fixes k :: "'a \<Rightarrow> 'b :: linorder"
  assumes "\<forall>x \<in> set xs. \<forall>y \<in> set xs. (c x y < 0) = (k x < k y) \<and> (c x y = 0) = (k x = k y)"
  shows "consistent_on c xs"
  unfolding consistent_on_def
proof (intro ballI conjI impI)
  fix x y assume xy: "x \<in> set xs" "y \<in> set xs"
  have 1: "(c x y < 0) = (k x < k y)" "(c x y = 0) = (k x = k y)"
    and 2: "(c y x < 0) = (k y < k x)" "(c y x = 0) = (k y = k x)"
    using assms xy by blast+
  consider "k x < k y" | "k x = k y" | "k y < k x"
    using less_linear by blast
  then show "sgn (c y x) = - sgn (c x y)"
  proof cases
    case 1
    then have "c x y < 0" "\<not> c y x < 0" "c y x \<noteq> 0"
      using \<open>(c x y < 0) = (k x < k y)\<close> 2 by auto
    then show ?thesis by (simp add: sgn_if)
  next
    case 2
    then have "c x y = 0" "c y x = 0"
      using \<open>(c x y = 0) = (k x = k y)\<close> \<open>(c y x = 0) = (k y = k x)\<close> by auto
    then show ?thesis by simp
  next
    case 3
    then have "c y x < 0" "\<not> c x y < 0" "c x y \<noteq> 0"
      using \<open>(c y x < 0) = (k y < k x)\<close> \<open>(c x y < 0) = (k x < k y)\<close>
        \<open>(c x y = 0) = (k x = k y)\<close> by auto
    then show ?thesis by (simp add: sgn_if)
  qed
next
  fix x y z assume in_xs: "x \<in> set xs" "y \<in> set xs" "z \<in> set xs"
    and h: "c x y \<le> 0 \<and> c y z \<le> 0"
  have le: "(c a b \<le> 0) = (k a \<le> k b)" if "a \<in> set xs" "b \<in> set xs" for a b
  proof -
    have "(c a b < 0) = (k a < k b)" "(c a b = 0) = (k a = k b)"
      using assms that by blast+
    then show ?thesis by (auto simp: le_less)
  qed
  have "k x \<le> k y" "k y \<le> k z"
    using h le in_xs by auto
  then have "k x \<le> k z" by (rule order_trans)
  then show "c x z \<le> 0" using le in_xs by simp
qed

lemma sort_sign_neg: "sort_sign (number_neg v) = - sort_sign v"
  by (cases v) simp_all

lemma SortCompare_row_compare:
  "SortCompare (row_compare pf cfg) =
     (if direction cfg = Asc
      then (\<lambda>x y. sort_sign (compare pf (get x (key cfg)) (get y (key cfg))))
      else (\<lambda>x y. - sort_sign (compare pf (get x (key cfg)) (get y (key cfg)))))"
  by (auto simp: SortCompare_def row_compare_def sort_sign_neg fun_eq_iff)

lemma number_rank_lt:
  "m \<noteq> NaN \<Longrightarrow> n \<noteq> NaN \<Longrightarrow>
   (sort_sign (number_minus m n) < 0) = (number_rank (Num m) < number_rank (Num n))"
  by (cases m; cases n) simp_all

lemma number_rank_eq:
  "m \<noteq> NaN \<Longrightarrow> n \<noteq> NaN \<Longrightarrow>
   (sort_sign (number_minus m n) = 0) = (number_rank (Num m) = number_rank (Num n))"
  by (cases m; cases n) (simp_all add: sgn_zero_iff)

lemma number_rank_sign:
  assumes "is_nullish a \<or> (is_number a \<and> a \<noteq> Num NaN)"
    and "is_nullish b \<or> (is_number b \<and> b \<noteq> Num NaN)"
  shows "(sort_sign (compare pf a b) < 0) = (number_rank a < number_rank b)"
    and "(sort_sign (compare pf a b) = 0) = (number_rank a = number_rank b)"
proof -
  have rank0: "number_rank c = (0, 0)" if "is_nullish c" for c
    using that by (cases c) simp_all
  have rank1: "(0, 0) < number_rank (Num m)" if "m \<noteq> NaN" for m
    using that by (cases m) simp_all
  consider (nn) "is_nullish a" "is_nullish b"
    | (nm) n where "is_nullish a" "b = Num n" "n \<noteq> NaN"
    | (mn) m where "a = Num m" "m \<noteq> NaN" "is_nullish b"
    | (mm) m n where "a = Num m" "m \<noteq> NaN" "b = Num n" "n \<noteq> NaN"
    using assms by (cases a; cases b) auto
  then have "(sort_sign (compare pf a b) < 0) = (number_rank a < number_rank b) \<and>
      (sort_sign (compare pf a b) = 0) = (number_rank a = number_rank b)"
  proof cases
    case nn
    then show ?thesis by (simp add: compare_def rank0)
  next
    case nm
    have "number_rank a < number_rank b" "number_rank a \<noteq> number_rank b"
      using nm rank0 [of a] rank1 [of n] by simp_all
    with nm show ?thesis by (simp add: compare_def)
  next
    case mn
    have "number_rank b < number_rank a"
      using mn rank0 [of b] rank1 [of m] by simp
    then have "\<not> number_rank a < number_rank b" "number_rank a \<noteq> number_rank b"
      by auto
    with mn show ?thesis by (simp add: compare_def)
  next
    case mm
    with number_rank_lt [of m n] number_rank_eq [of m n] show ?thesis by (simp add: compare_def)
  qed
  then show "(sort_sign (compare pf a b) < 0) = (number_rank a < number_rank b)"
    and "(sort_sign (compare pf a b) = 0) = (number_rank a = number_rank b)"
    by blast+
qed

text \<open>A column of numbers other than \<open>NaN\<close>, with or without absent values, on any platform.\<close>

lemma numeric_column_consistent:
  assumes "\<forall>r \<in> set d. is_nullish (get r (key cfg)) \<or>
      (is_number (get r (key cfg)) \<and> get r (key cfg) \<noteq> Num NaN)"
  shows "consistent_on (SortCompare (row_compare pf cfg)) d"
proof -
  have "consistent_on (\<lambda>x y. sort_sign (compare pf (get x (key cfg)) (get y (key cfg)))) d"
    by (rule consistent_on_key [where k = "\<lambda>r. number_rank (get r (key cfg))"])
      (use assms number_rank_sign in blast)
  then show ?thesis
    using consistent_on_neg by (auto simp: SortCompare_row_compare)
qed

lemma string_rank_sign:
  assumes "\<not> is_number a" and "\<not> is_number b"
  shows "(sort_sign (compare js_platform a b) < 0) = (string_rank a < string_rank b)"
    and "(sort_sign (compare js_platform a b) = 0) = (string_rank a = string_rank b)"
  using assms
  by (auto simp: compare_def string_rank_def js_platform_def collate_def sgn_if)

text \<open>A column without numbers, with or without absent values, on \<open>js_platform\<close>.\<close>

lemma string_column_consistent:
  assumes "\<forall>r \<in> set d. \<not> is_number (get r (key cfg))"
  shows "consistent_on (SortCompare (row_compare js_platform cfg)) d"
proof -
  have "consistent_on
      (\<lambda>x y. sort_sign (compare js_platform (get x (key cfg)) (get y (key cfg)))) d"
    by (rule consistent_on_key [where k = "\<lambda>r. string_rank (get r (key cfg))"])
      (use assms string_rank_sign in blast)
  then show ?thesis
    using consistent_on_neg by (auto simp: SortCompare_row_compare)
qed

subsection \<open>The string comparison\<close>

lemmas collate_defs = collate_def is_digit_def digit_value_def char_weight_def is_upper_def
  is_lower_def to_lower_def

lemma to_lower_facts:
  "is_digit (to_lower ch) = is_digit ch"
  "digit_value (to_lower ch) = digit_value ch \<or> \<not> is_digit ch"
  "\<not> is_digit ch \<Longrightarrow> char_weight (to_lower ch) = char_weight ch"
  by (auto simp: is_digit_def digit_value_def char_weight_def is_upper_def is_lower_def
      to_lower_def)

lemma collation_key_lower: "collation_key acc (map to_lower s) = collation_key acc s"
proof (induction s arbitrary: acc)
  case Nil
  then show ?case by (cases acc) simp_all
next
  case (Cons ch s)
  show ?case
    using to_lower_facts [of ch] Cons.IH by auto
qed

lemma collate_case_insensitive: "collate (map to_lower s) (map to_lower t) = collate s t"
  by (simp add: collate_def collation_key_lower)

lemma collation_key_digits:
  "\<forall>ch \<in> set ds. is_digit ch \<Longrightarrow>
   collation_key (Some n) ds = [(1, foldl (\<lambda>n ch. 10 * n + digit_value ch) n ds)]"
  by (induction ds arbitrary: n) simp_all

lemma collation_key_digits_None:
  "\<forall>ch \<in> set ds. is_digit ch \<Longrightarrow> ds \<noteq> [] \<Longrightarrow>
   collation_key None ds = [(1, digits_value ds)]"
  by (cases ds) (simp_all add: collation_key_digits digits_value_def)

lemma collation_key_prefix:
  "\<forall>ch \<in> set p. \<not> is_digit ch \<Longrightarrow>
   collation_key None (p @ s) = map char_weight p @ collation_key None s"
  by (induction p) simp_all

lemma append_less_iff: "(xs @ ys < xs @ zs) = (ys < (zs :: ('a :: linorder) list))"
  by (induction xs) simp_all

lemma collate_numeric:
  assumes "\<forall>ch \<in> set p. \<not> is_digit ch" and "ds \<noteq> []" and "es \<noteq> []"
    and "\<forall>ch \<in> set (ds @ es). is_digit ch"
  shows "(collate (p @ ds) (p @ es) < 0) = (digits_value ds < digits_value es)"
proof -
  have "collation_key None (p @ ds) = map char_weight p @ [(1, digits_value ds)]"
    "collation_key None (p @ es) = map char_weight p @ [(1, digits_value es)]"
    using assms by (simp_all add: collation_key_prefix collation_key_digits_None)
  then show ?thesis
    by (simp add: collate_def append_less_iff)
qed

lemma collate_sign:
  "(collate s t < 0) = (collation_key None s < collation_key None t)"
  "(collate s t = 0) = (collation_key None s = collation_key None t)"
  by (auto simp: collate_def)

subsection \<open>Sorting again\<close>













lemma js_platform_sel:
  "localeCompare js_platform = collate" "numberToString js_platform = number_string"
  by (simp_all add: js_platform_def)





subsection \<open>The sorted sequence\<close>

text \<open>The equations that evaluate a sort of a sample table.\<close>

lemmas sort_defs = sortedData_def array_sort_def ArrayTimSort_def BinaryInsertionSort_def
  insert_pivot_def binary_search.simps SortCompare_def row_compare_def compare_def get_def
  row_id_def by_age_def sort_by_def js_platform_sel

lemmas string_defs = number_string_def nat_string.simps frac_string.simps digit_char_def
  collate_defs

text \<open>
  Claim C3, amended. Without a sort configuration the sorted sequence is the input in its
  order. The comparator gives 0 for two absent or null values, puts an absent or null
  value before a present one, compares two numbers by their difference and every other
  pair by \<open>localeCompare\<close> on their strings, which on \<open>js_platform\<close> ignores the case of
  letters and compares runs of digits as numbers; descending negates the result. With a
  sort configuration the sorted sequence is a rearrangement of the rows, and where the
  comparator is consistent on the rows no row in it compares greater than a later one.
  The comparator is consistent on a column of numbers other than \<open>NaN\<close> and of absent
  values, and on \<open>js_platform\<close> on a column without numbers.
\<close>

theorem sortedData_ordered:
  "sortedData pf None d = d \<and>
   (is_nullish a \<and> is_nullish b \<longrightarrow> compare pf a b = Finite 0) \<and>
   (is_nullish a \<and> \<not> is_nullish b \<longrightarrow>
      compare pf a b = Finite (- 1) \<and> compare pf b a = Finite 1) \<and>
   compare pf (Num m) (Num n) = number_minus m n \<and>
   compare pf (Num (Finite x)) (Num (Finite y)) = Finite (x - y) \<and>
   (\<not> is_nullish a \<and> \<not> is_nullish b \<and> \<not> (is_number a \<and> is_number b) \<longrightarrow>
      compare pf a b = Finite (localeCompare pf (String_of pf a) (String_of pf b))) \<and>
   localeCompare js_platform (map to_lower s) (map to_lower t) = localeCompare js_platform s t \<and>
   ((\<forall>ch \<in> set p. \<not> is_digit ch) \<and> ds \<noteq> [] \<and> es \<noteq> [] \<and>
    (\<forall>ch \<in> set (ds @ es). is_digit ch) \<longrightarrow>
      (localeCompare js_platform (p @ ds) (p @ es) < 0) = (digits_value ds < digits_value es)) \<and>
   row_compare pf \<lparr>key = k, direction = Asc\<rparr> r r' = compare pf (get r k) (get r' k) \<and>
   row_compare pf \<lparr>key = k, direction = Desc\<rparr> r r'
     = number_neg (compare pf (get r k) (get r' k)) \<and>
   mset (sortedData pf (Some cfg) d) = mset d \<and>
   (consistent_on (SortCompare (row_compare pf cfg)) d \<longrightarrow>
      ordered_by pf cfg (sortedData pf (Some cfg) d)) \<and>
   ((\<forall>r \<in> set d. is_nullish (get r (key cfg)) \<or>
        (is_number (get r (key cfg)) \<and> get r (key cfg) \<noteq> Num NaN)) \<longrightarrow>
      consistent_on (SortCompare (row_compare pf cfg)) d) \<and>
   ((\<forall>r \<in> set d. \<not> is_number (get r (key cfg))) \<longrightarrow>
      consistent_on (SortCompare (row_compare js_platform cfg)) d)"
proof -
  have 1: "sortedData pf None d = d" by (simp add: sortedData_def)
  have 2: "is_nullish a \<and> is_nullish b \<longrightarrow> compare pf a b = Finite 0"
    by (simp add: compare_def)
  have 3: "is_nullish a \<and> \<not> is_nullish b \<longrightarrow>
      compare pf a b = Finite (- 1) \<and> compare pf b a = Finite 1"
    by (simp add: compare_def)
  have 4: "compare pf (Num m) (Num n) = number_minus m n" by (simp add: compare_def)
  have 5: "compare pf (Num (Finite x)) (Num (Finite y)) = Finite (x - y)"
    by (simp add: compare_def)
  have 6: "\<not> is_nullish a \<and> \<not> is_nullish b \<and> \<not> (is_number a \<and> is_number b) \<longrightarrow>
      compare pf a b = Finite (localeCompare pf (String_of pf a) (String_of pf b))"
    by (simp add: compare_def)
  have 7: "localeCompare js_platform (map to_lower s) (map to_lower t)
      = localeCompare js_platform s t"
    by (simp add: js_platform_sel collate_case_insensitive)
  have 8: "(\<forall>ch \<in> set p. \<not> is_digit ch) \<and> ds \<noteq> [] \<and> es \<noteq> [] \<and>
      (\<forall>ch \<in> set (ds @ es). is_digit ch) \<longrightarrow>
      (localeCompare js_platform (p @ ds) (p @ es) < 0) = (digits_value ds < digits_value es)"
    using collate_numeric [of p ds es] by (simp only: js_platform_sel) blast
  have 9: "row_compare pf \<lparr>key = k, direction = Asc\<rparr> r r' = compare pf (get r k) (get r' k)"
    by (simp add: row_compare_def)
  have 10: "row_compare pf \<lparr>key = k, direction = Desc\<rparr> r r'
      = number_neg (compare pf (get r k) (get r' k))"
    by (simp add: row_compare_def)
  have 11: "mset (sortedData pf (Some cfg) d) = mset d"
    by (simp add: sortedData_def mset_array_sort)
  have 12: "consistent_on (SortCompare (row_compare pf cfg)) d \<longrightarrow>
      ordered_by pf cfg (sortedData pf (Some cfg) d)"
    using ArrayTimSort_sorted [of "SortCompare (row_compare pf cfg)" d]
    by (simp add: ordered_by_def sortedData_def array_sort_def)
  have 13: "(\<forall>r \<in> set d. is_nullish (get r (key cfg)) \<or>
        (is_number (get r (key cfg)) \<and> get r (key cfg) \<noteq> Num NaN)) \<longrightarrow>
      consistent_on (SortCompare (row_compare pf cfg)) d"
    using numeric_column_consistent [of d cfg pf] by blast
  have 14: "(\<forall>r \<in> set d. \<not> is_number (get r (key cfg))) \<longrightarrow>
      consistent_on (SortCompare (row_compare js_platform cfg)) d"
    using string_column_consistent [of d cfg] by blast
  from 1 2 3 4 5 6 7 8 9 10 11 12 13 14 show ?thesis by blast
qed

theorem sortedData_ordered_witness:
  "sortedData js_platform None mockData = mockData \<and>
   compare js_platform Null Undefined = Finite 0 \<and>
   compare js_platform Null (Num (Finite 25)) = Finite (- 1) \<and>
   compare js_platform (Num (Finite 25)) Null = Finite 1 \<and>
   compare js_platform (Num (Finite 30)) (Num (Finite 25)) = Finite 5 \<and>
   compare js_platform (Str ''Item2'') (Str ''item10'') = Finite (- 1) \<and>
   compare js_platform (Str ''Item2'') (Str ''item2'') = Finite 0 \<and>
   compare js_platform (Num (Finite 0.5)) (Str ''0.25'') = Finite (- 1) \<and>
   localeCompare js_platform (map to_lower ''Item2'') (map to_lower ''ITEM2'')
     = localeCompare js_platform ''Item2'' ''ITEM2'' \<and>
   digits_value ''2'' < digits_value ''10'' \<and>
   localeCompare js_platform (''item'' @ ''2'') (''item'' @ ''10'') < 0 \<and>
   consistent_on (SortCompare (row_compare js_platform (by_age Asc))) mockData \<and>
   map row_id (sortedData js_platform (Some (by_age Asc)) mockData)
     = [Num (Finite 2), Num (Finite 1), Num (Finite 3)] \<and>
   ordered_by js_platform (by_age Asc) (sortedData js_platform (Some (by_age Asc)) mockData) \<and>
   consistent_on (SortCompare (row_compare js_platform (by_age Desc))) mockData \<and>
   map row_id (sortedData js_platform (Some (by_age Desc)) mockData)
     = [Num (Finite 3), Num (Finite 1), Num (Finite 2)] \<and>
   ordered_by js_platform (by_age Desc) (sortedData js_platform (Some (by_age Desc)) mockData) \<and>
   consistent_on (SortCompare (row_compare js_platform (sort_by ''label'' Asc))) labelData \<and>
   map row_id (sortedData js_platform (Some (sort_by ''label'' Asc)) labelData)
     = [Num (Finite 4), Num (Finite 2), Num (Finite 3), Num (Finite 1)] \<and>
   ordered_by js_platform (sort_by ''label'' Asc)
     (sortedData js_platform (Some (sort_by ''label'' Asc)) labelData)"
proof -
  note asc = sortedData_ordered [where pf = js_platform and d = mockData
      and cfg = "by_age Asc" and s = "''Item2''" and t = "''ITEM2''"
      and p = "''item''" and ds = "''2''" and es = "''10''"]
  note desc = sortedData_ordered [where pf = js_platform and d = mockData
      and cfg = "by_age Desc"]
  note label = sortedData_ordered [where pf = js_platform and d = labelData
      and cfg = "sort_by ''label'' Asc"]
  have none: "sortedData js_platform None mockData = mockData"
    using asc by blast
  have vals:
    "compare js_platform Null Undefined = Finite 0"
    "compare js_platform Null (Num (Finite 25)) = Finite (- 1)"
    "compare js_platform (Num (Finite 25)) Null = Finite 1"
    "compare js_platform (Num (Finite 30)) (Num (Finite 25)) = Finite 5"
    "compare js_platform (Str ''Item2'') (Str ''item10'') = Finite (- 1)"
    "compare js_platform (Str ''Item2'') (Str ''item2'') = Finite 0"
    "compare js_platform (Num (Finite 0.5)) (Str ''0.25'') = Finite (- 1)"
    by (simp_all add: compare_def js_platform_sel string_defs)
  have lower: "localeCompare js_platform (map to_lower ''Item2'') (map to_lower ''ITEM2'')
     = localeCompare js_platform ''Item2'' ''ITEM2''"
    using asc by blast
  have digits: "\<forall>ch \<in> set ''item''. \<not> is_digit ch" "''2'' \<noteq> []" "''10'' \<noteq> []"
    "\<forall>ch \<in> set (''2'' @ ''10''). is_digit ch"
    by (simp_all add: is_digit_def)
  have two_ten: "digits_value ''2'' < digits_value ''10''"
    by (simp add: digits_value_def digit_value_def)
  have "(localeCompare js_platform (''item'' @ ''2'') (''item'' @ ''10'') < 0)
      = (digits_value ''2'' < digits_value ''10'')"
    using asc digits by blast
  with two_ten have numeric: "localeCompare js_platform (''item'' @ ''2'') (''item'' @ ''10'') < 0"
    by blast
  have ages: "\<forall>r \<in> set mockData. is_nullish (get r (key (by_age dir))) \<or>
      (is_number (get r (key (by_age dir))) \<and> get r (key (by_age dir)) \<noteq> Num NaN)" for dir
    by (simp add: mockData_def get_def by_age_def)
  have labels: "\<forall>r \<in> set labelData. \<not> is_number (get r (key (sort_by ''label'' Asc)))"
    by (simp add: labelData_def get_def sort_by_def)
  have c1: "consistent_on (SortCompare (row_compare js_platform (by_age Asc))) mockData"
    using asc ages [of Asc] by blast
  have c2: "consistent_on (SortCompare (row_compare js_platform (by_age Desc))) mockData"
    using desc ages [of Desc] by blast
  have c3: "consistent_on (SortCompare (row_compare js_platform (sort_by ''label'' Asc))) labelData"
    using label labels by blast
  have o1: "ordered_by js_platform (by_age Asc) (sortedData js_platform (Some (by_age Asc)) mockData)"
    using asc c1 by blast
  have o2: "ordered_by js_platform (by_age Desc)
      (sortedData js_platform (Some (by_age Desc)) mockData)"
    using desc c2 by blast
  have o3: "ordered_by js_platform (sort_by ''label'' Asc)
      (sortedData js_platform (Some (sort_by ''label'' Asc)) labelData)"
    using label c3 by blast
  have ids:
    "map row_id (sortedData js_platform (Some (by_age Asc)) mockData)
       = [Num (Finite 2), Num (Finite 1), Num (Finite 3)]"
    "map row_id (sortedData js_platform (Some (by_age Desc)) mockData)
       = [Num (Finite 3), Num (Finite 1), Num (Finite 2)]"
    "map row_id (sortedData js_platform (Some (sort_by ''label'' Asc)) labelData)
       = [Num (Finite 4), Num (Finite 2), Num (Finite 3), Num (Finite 1)]"
    by (simp_all add: sort_defs string_defs mockData_def labelData_def)
  from none vals lower two_ten numeric c1 c2 c3 o1 o2 o3 ids show ?thesis
    by blast
qed

text \<open>
  Claim C3 as stated fails: the rows of \<open>cyclicData\<close> hold 0.5, 0.125 and the string
  "0.25" in the sorted column. The two numbers compare by their difference, a number and
  the string as strings, where the digits after the point count as a number of their own:
  0.125 is before 0.5, 0.5 before "0.25" (5 before 25) and "0.25" before 0.125 (25 before
  125). The sort returns the rows 3, 2, 1, and row 3 compares greater than row 1; none of
  the six arrangements of the rows is ordered by the comparator.
\<close>

theorem cyclic_column_unordered:
  "map row_id (sortedData js_platform (Some (sort_by ''size'' Asc)) cyclicData)
     = [Num (Finite 3), Num (Finite 2), Num (Finite 1)] \<and>
   \<not> ordered_by js_platform (sort_by ''size'' Asc)
     (sortedData js_platform (Some (sort_by ''size'' Asc)) cyclicData) \<and>
   \<not> ordered_by js_platform (sort_by ''size'' Asc) (map (nth cyclicData) [0, 1, 2]) \<and>
   \<not> ordered_by js_platform (sort_by ''size'' Asc) (map (nth cyclicData) [0, 2, 1]) \<and>
   \<not> ordered_by js_platform (sort_by ''size'' Asc) (map (nth cyclicData) [1, 0, 2]) \<and>
   \<not> ordered_by js_platform (sort_by ''size'' Asc) (map (nth cyclicData) [1, 2, 0]) \<and>
   \<not> ordered_by js_platform (sort_by ''size'' Asc) (map (nth cyclicData) [2, 0, 1]) \<and>
   \<not> ordered_by js_platform (sort_by ''size'' Asc) (map (nth cyclicData) [2, 1, 0])"
  by (simp add: ordered_by_def sort_defs string_defs cyclicData_def)




section \<open>The pages cover the rows\<close>

lemma slice_page:
  assumes "0 \<le> start" and "0 < p"
  shows "slice xs start (start + p) = take (nat p) (drop (nat start) xs)"
proof (cases "start < int (length xs)")
  case True
  have "take (nat (min (start + p) (int (length xs)) - start)) (drop (nat start) xs)
        = take (nat p) (drop (nat start) xs)"
  proof (cases "start + p \<le> int (length xs)")
    case True
    then show ?thesis by (simp add: min_def)
  next
    case False
    then have "length (drop (nat start) xs) \<le> nat (int (length xs) - start)"
      and "length (drop (nat start) xs) \<le> nat p"
      using assms by auto
    with False show ?thesis by (simp add: min_def)
  qed
  with True assms show ?thesis by (simp add: slice_def Let_def min_def)
next
  case False
  with assms show ?thesis by (simp add: slice_def Let_def min_def)
qed

lemma paginatedData_take_drop:
  assumes "1 \<le> pg" and "0 < p"
  shows "paginatedData s pg p = take (nat p) (drop (nat (pg - 1) * nat p) s)"
proof -
  have "nat ((pg - 1) * p) = nat (pg - 1) * nat p"
    using assms by (simp add: nat_mult_distrib)
  moreover have "0 \<le> (pg - 1) * p" using assms by simp
  ultimately show ?thesis
    using slice_page [of "(pg - 1) * p" p s] assms by (simp add: paginatedData_def Let_def)
qed

lemma pages_prefix:
  assumes "0 < p"
  shows "concat (map (\<lambda>pg. paginatedData s pg p) [1..int k]) = take (k * nat p) s"
proof (induction k)
  case 0
  then show ?case by simp
next
  case (Suc k)
  have "[1..int (Suc k)] = [1..int k] @ [int k + 1]"
    by (simp add: upto_rec2)
  moreover have "paginatedData s (int k + 1) p = take (nat p) (drop (k * nat p) s)"
    using paginatedData_take_drop [of "int k + 1" p s] assms by simp
  moreover have "Suc k * nat p = k * nat p + nat p" by simp
  ultimately show ?case
    using Suc.IH by (simp only: map_append concat_append list.map concat.simps append_Nil2 take_add)
qed

lemma div_round_up:
  assumes "0 < (p::int)"
  shows "((n + p - 1) div p - 1) * p < n" and "n \<le> (n + p - 1) div p * p"
proof -
  have q: "(n + p - 1) div p * p = (n + p - 1) - (n + p - 1) mod p"
    by (simp add: minus_mod_eq_div_mult)
  have r: "0 \<le> (n + p - 1) mod p" "(n + p - 1) mod p < p"
    using assms by simp_all
  show "((n + p - 1) div p - 1) * p < n"
    using q r by (simp add: left_diff_distrib)
  show "n \<le> (n + p - 1) div p * p"
    using q r by simp
qed

lemma ceiling_div_int:
  assumes "0 < (p::int)"
  shows "\<lceil>real_of_int n / real_of_int p\<rceil> = (n + p - 1) div p"
proof (rule ceiling_unique)
  have "real_of_int (((n + p - 1) div p - 1) * p) < real_of_int n"
    using div_round_up(1) [OF assms, of n] by (simp only: of_int_less_iff)
  then show "of_int ((n + p - 1) div p) - 1 < real_of_int n / real_of_int p"
    using assms by (simp add: pos_less_divide_eq)
  have "real_of_int n \<le> real_of_int ((n + p - 1) div p * p)"
    using div_round_up(2) [OF assms, of n] by (simp only: of_int_le_iff)
  then show "real_of_int n / real_of_int p \<le> of_int ((n + p - 1) div p)"
    using assms by (simp add: pos_divide_le_eq)
qed

lemma totalPages_div:
  assumes "0 < itemsPerPage pr"
  shows "totalPages pr = max 1 ((int (length (data pr)) + itemsPerPage pr - 1) div itemsPerPage pr)"
  using ceiling_div_int [OF assms, of "int (length (data pr))"] by (simp add: totalPages_def)

lemma totalPages_covers:
  assumes "0 < itemsPerPage pr"
  shows "length (data pr) \<le> nat (totalPages pr) * nat (itemsPerPage pr)"
proof -
  let ?n = "int (length (data pr))" and ?p = "itemsPerPage pr"
  have "?n \<le> (?n + ?p - 1) div ?p * ?p"
    by (rule div_round_up(2) [OF assms])
  also have "\<dots> \<le> totalPages pr * ?p"
    using assms by (simp add: totalPages_div mult_right_mono)
  finally have "?n \<le> totalPages pr * ?p" .
  moreover have "0 \<le> totalPages pr" using totalPages_ge1 [of pr] by simp
  ultimately show ?thesis
    using assms by (simp add: nat_mult_distrib [symmetric] nat_le_iff)
qed

text \<open>
  Claim C6. For a page size of at least 1, the number of pages is the greater of 1 and
  the row count divided by the page size, rounded up; the slices of the pages 1 to the
  last, one after the other, are the sorted sequence: no row is missing and none stands
  in two slices.
\<close>

theorem pagination_coverage:
  assumes "0 < itemsPerPage pr"
  shows "totalPages pr = max 1 ((int (length (data pr)) + itemsPerPage pr - 1) div itemsPerPage pr) \<and>
         concat (map (\<lambda>pg. paginatedData (sortedData pf sc (data pr)) pg (itemsPerPage pr))
                   [1..totalPages pr])
           = sortedData pf sc (data pr)"
proof -
  have len: "length (sortedData pf sc (data pr)) = length (data pr)"
    by (cases sc) (simp_all add: sortedData_def length_array_sort)
  have "[1..totalPages pr] = [1..int (nat (totalPages pr))]"
    using totalPages_ge1 [of pr] by simp
  then have "concat (map (\<lambda>pg. paginatedData (sortedData pf sc (data pr)) pg (itemsPerPage pr))
                   [1..totalPages pr])
      = take (nat (totalPages pr) * nat (itemsPerPage pr)) (sortedData pf sc (data pr))"
    using pages_prefix [OF assms, of "sortedData pf sc (data pr)" "nat (totalPages pr)"]
    by simp
  also have "\<dots> = sortedData pf sc (data pr)"
    using totalPages_covers [OF assms] len by simp
  finally show ?thesis using totalPages_div [OF assms] by simp
qed

theorem pagination_coverage_witness:
  "0 < itemsPerPage (table_props mockData Multiple 2) \<and> totalPages (table_props mockData Multiple 2) = 2 \<and>
   map row_id (paginatedData (sortedData js_platform (Some (by_age Asc)) mockData) 1 2)
     = [Num (Finite 2), Num (Finite 1)] \<and>
   map row_id (paginatedData (sortedData js_platform (Some (by_age Asc)) mockData) 2 2)
     = [Num (Finite 3)] \<and>
   concat (map (\<lambda>pg. paginatedData (sortedData js_platform (Some (by_age Asc)) mockData) pg 2)
             [1..2])
     = sortedData js_platform (Some (by_age Asc)) mockData"
proof -
  have tp: "totalPages (table_props mockData Multiple 2) = 2"
    by (simp add: totalPages_def table_props_def mockData_def)
  have pages:
    "map row_id (paginatedData (sortedData js_platform (Some (by_age Asc)) mockData) 1 2)
       = [Num (Finite 2), Num (Finite 1)]"
    "map row_id (paginatedData (sortedData js_platform (Some (by_age Asc)) mockData) 2 2)
       = [Num (Finite 3)]"
    by (simp_all add: paginatedData_def slice_def sort_defs mockData_def)
  show ?thesis
    using tp pages pagination_coverage [of "table_props mockData Multiple 2" js_platform "Some (by_age Asc)"]
    by (simp add: table_props_def)
qed

section \<open>The page when the rows change\<close>

text \<open>
  Claim C1. A table at rest on page 5 of 5, with 10 rows and 2 rows a page, is given a
  sequence of 3 rows, which has 2 pages: the renders come to rest with the current page
  2, the new number of pages.
\<close>

theorem clamp_on_shrink:
  assumes "at_rest pr st" and "length (data pr) = 10" and "itemsPerPage pr = 2"
    and "currentPage st = 5" and "length d' = 3"
  shows "totalPages pr = 5 \<and> totalPages (pr\<lparr>data := d'\<rparr>) = 2 \<and>
         map_option currentPage (rerender (pr\<lparr>data := d'\<rparr>) st) = Some 2"
proof -
  have tp: "totalPages pr = 5" "totalPages (pr\<lparr>data := d'\<rparr>) = 2"
    using assms by (simp_all add: totalPages_def)
  have "page_in_range pr st" using assms tp by (simp add: page_in_range_def)
  from rerender_page [OF assms(1) this, of "pr\<lparr>data := d'\<rparr>"] tp assms
  show ?thesis by (simp add: rerender_def settle_eq)
qed

theorem clamp_on_shrink_witness:
  "Option.bind (mount (table_props (rows_upto 10) Multiple 2))
     (dispatch_all (table_props (rows_upto 10) Multiple 2) [GoToNext, GoToNext, GoToNext, GoToNext])
     = Some (at_page (table_props (rows_upto 10) Multiple 2) {||} 5) \<and>
   at_rest (table_props (rows_upto 10) Multiple 2) (at_page (table_props (rows_upto 10) Multiple 2) {||} 5) \<and>
   length (data (table_props (rows_upto 10) Multiple 2)) = 10 \<and>
   itemsPerPage (table_props (rows_upto 10) Multiple 2) = 2 \<and>
   currentPage (at_page (table_props (rows_upto 10) Multiple 2) {||} 5) = 5 \<and>
   length (rows_upto 3) = 3 \<and>
   totalPages (table_props (rows_upto 10) Multiple 2) = 5 \<and>
   totalPages ((table_props (rows_upto 10) Multiple 2)\<lparr>data := rows_upto 3\<rparr>) = 2 \<and>
   map_option currentPage
     (rerender ((table_props (rows_upto 10) Multiple 2)\<lparr>data := rows_upto 3\<rparr>) (at_page (table_props (rows_upto 10) Multiple 2) {||} 5)) = Some 2"
proof -
  have tp: "totalPages (table_props (rows_upto 10) Multiple 2) = 5"
    by (simp add: totalPages_def table_props_def length_rows_upto)
  have reach: "Option.bind (mount (table_props (rows_upto 10) Multiple 2))
     (dispatch_all (table_props (rows_upto 10) Multiple 2) [GoToNext, GoToNext, GoToNext, GoToNext])
     = Some (at_page (table_props (rows_upto 10) Multiple 2) {||} 5)"
    by (simp add: mount_at_page dispatch_next_at_page tp)
  have hyps: "length (data (table_props (rows_upto 10) Multiple 2)) = 10" "itemsPerPage (table_props (rows_upto 10) Multiple 2) = 2"
    "currentPage (at_page (table_props (rows_upto 10) Multiple 2) {||} 5) = 5" "length (rows_upto 3) = 3"
    by (simp_all add: table_props_def at_page_def length_rows_upto)
  show ?thesis
    using reach hyps at_rest_at_page [of "table_props (rows_upto 10) Multiple 2" "{||}" 5]
      clamp_on_shrink [OF at_rest_at_page hyps]
    by simp
qed

text \<open>
  When a table at rest is given a row sequence of another length, the reset effect queues
  page 1, and the clamp effect of the same commit, which reads the page of the render
  that is committed, queues the new number of pages after it when that page is beyond
  them. The page that was current decides where the renders come to rest: on page 1 only
  where it is not beyond the new last page, or where one page is left.
\<close>

lemma length_change_page:
  assumes "at_rest pr st" and "page_in_range pr st"
    and "length d' \<noteq> length (data pr)"
  shows "map_option currentPage (rerender (pr\<lparr>data := d'\<rparr>) st)
       = Some (if currentPage st > totalPages (pr\<lparr>data := d'\<rparr>)
               then totalPages (pr\<lparr>data := d'\<rparr>) else 1)"
    and "(map_option currentPage (rerender (pr\<lparr>data := d'\<rparr>) st) = Some 1)
       = (currentPage st \<le> totalPages (pr\<lparr>data := d'\<rparr>) \<or>
          totalPages (pr\<lparr>data := d'\<rparr>) = 1)"
proof -
  show page: "map_option currentPage (rerender (pr\<lparr>data := d'\<rparr>) st)
       = Some (if currentPage st > totalPages (pr\<lparr>data := d'\<rparr>)
               then totalPages (pr\<lparr>data := d'\<rparr>) else 1)"
    using rerender_page [OF assms(1,2), of "pr\<lparr>data := d'\<rparr>"] assms(3)
    by (simp add: rerender_def settle_eq)
  show "(map_option currentPage (rerender (pr\<lparr>data := d'\<rparr>) st) = Some 1)
       = (currentPage st \<le> totalPages (pr\<lparr>data := d'\<rparr>) \<or>
          totalPages (pr\<lparr>data := d'\<rparr>) = 1)"
    unfolding page by auto
qed

text \<open>
  Claim C2. The reset effect of the source ("reset page if data length changes") calls
  \<open>setCurrentPage(1)\<close> whenever the length of the row sequence changes, and the claim is
  that the current page then becomes 1. It does not where the page that was current is
  beyond the new last page: a table of 6 rows, 2 a page, reached page 3 by two
  \<open>goToNext\<close> events; given 4 rows (2 pages), it comes to rest on page 2, not on page 1.
\<close>

theorem reset_overridden_by_clamp:
  "Option.bind (mount (table_props (rows_upto 6) Multiple 2)) (dispatch_all (table_props (rows_upto 6) Multiple 2) [GoToNext, GoToNext])
     = Some (at_page (table_props (rows_upto 6) Multiple 2) {||} 3) \<and>
   length (rows_upto 4) \<noteq> length (data (table_props (rows_upto 6) Multiple 2)) \<and>
   queued_pages ((table_props (rows_upto 6) Multiple 2)\<lparr>data := rows_upto 4\<rparr>)
     (at_page (table_props (rows_upto 6) Multiple 2) {||} 3) = [1, 2] \<and>
   map_option currentPage
     (rerender ((table_props (rows_upto 6) Multiple 2)\<lparr>data := rows_upto 4\<rparr>) (at_page (table_props (rows_upto 6) Multiple 2) {||} 3)) = Some 2 \<and>
   map_option currentPage
     (rerender ((table_props (rows_upto 6) Multiple 2)\<lparr>data := rows_upto 4\<rparr>) (at_page (table_props (rows_upto 6) Multiple 2) {||} 3)) \<noteq> Some 1"
proof -
  have tp: "totalPages (table_props (rows_upto 6) Multiple 2) = 3" "totalPages ((table_props (rows_upto 6) Multiple 2)\<lparr>data := rows_upto 4\<rparr>) = 2"
    by (simp_all add: totalPages_def table_props_def length_rows_upto)
  have reach: "Option.bind (mount (table_props (rows_upto 6) Multiple 2)) (dispatch_all (table_props (rows_upto 6) Multiple 2) [GoToNext, GoToNext])
     = Some (at_page (table_props (rows_upto 6) Multiple 2) {||} 3)"
    by (simp add: mount_at_page dispatch_next_at_page tp)
  have len: "length (rows_upto 4) \<noteq> length (data (table_props (rows_upto 6) Multiple 2))"
    by (simp add: table_props_def length_rows_upto)
  have len4: "length (data ((table_props (rows_upto 6) Multiple 2)\<lparr>data := rows_upto 4\<rparr>)) = 4"
    by (simp add: length_rows_upto)
  have queue: "queued_pages ((table_props (rows_upto 6) Multiple 2)\<lparr>data := rows_upto 4\<rparr>)
     (at_page (table_props (rows_upto 6) Multiple 2) {||} 3) = [1, 2]"
    using tp len len4 by (simp add: queued_pages_def at_page_def)
  have "map_option currentPage
     (rerender ((table_props (rows_upto 6) Multiple 2)\<lparr>data := rows_upto 4\<rparr>) (at_page (table_props (rows_upto 6) Multiple 2) {||} 3)) = Some 2"
    using tp len len4
    by (simp add: rerender_def settle_eq rest_state_def queued_pages_def at_page_def)
  with reach len queue show ?thesis by auto
qed

section \<open>Selection events\<close>





text \<open>
  Claim C9. Page navigation does not touch the selection: after every sequence of
  \<open>goToNext\<close> and \<open>goToPrev\<close> events, from every state, the component is at rest with the
  selection it had; a row selected on page 1 is selected after a visit to page 2.
\<close>

theorem navigation_keeps_selection:
  assumes "0 < itemsPerPage pr" and "\<forall>ev \<in> set evs. is_navigation ev"
  shows "map_option selectedRows (dispatch_all pr evs st) = Some (selectedRows st)"
  using assms(2)
proof (induction evs arbitrary: st)
  case Nil
  then show ?case by simp
next
  case (Cons ev evs)
  then obtain st' where st': "dispatch pr ev st = Some (st', [])" "selectedRows st' = selectedRows st"
    using dispatch_nav [of ev pr st] by auto
  have "map_option selectedRows (dispatch_all pr evs st') = Some (selectedRows st')"
    using Cons.IH [of st'] Cons.prems by simp
  with st' show ?case by simp
qed

theorem navigation_keeps_selection_witness:
  "0 < itemsPerPage (table_props mockData Multiple 2) \<and>
   is_navigation GoToNext \<and> is_navigation GoToPrev \<and>
   Option.bind (mount (table_props mockData Multiple 2)) (dispatch_all (table_props mockData Multiple 2) [RowToggle (mockData ! 0)])
     = Some (at_page (table_props mockData Multiple 2) {|Num (Finite 1)|} 1) \<and>
   dispatch_all (table_props mockData Multiple 2) [GoToNext] (at_page (table_props mockData Multiple 2) {|Num (Finite 1)|} 1) = Some (at_page (table_props mockData Multiple 2) {|Num (Finite 1)|} 2) \<and>
   dispatch_all (table_props mockData Multiple 2) [GoToNext, GoToPrev] (at_page (table_props mockData Multiple 2) {|Num (Finite 1)|} 1)
     = Some (at_page (table_props mockData Multiple 2) {|Num (Finite 1)|} 1) \<and>
   map_option selectedRows (dispatch_all (table_props mockData Multiple 2) [GoToNext, GoToPrev] (at_page (table_props mockData Multiple 2) {|Num (Finite 1)|} 1))
     = Some {|Num (Finite 1)|}"
proof -
  have pos: "0 < itemsPerPage (table_props mockData Multiple 2)"
    by (simp add: table_props_def)
  have tp: "totalPages (table_props mockData Multiple 2) = 2"
    by (simp add: totalPages_def table_props_def mockData_def)
  have nav: "\<forall>ev \<in> set [GoToNext, GoToPrev]. is_navigation ev"
    by simp
  have toggle: "handleSelectRow (table_props mockData Multiple 2) (mockData ! 0) (at_page (table_props mockData Multiple 2) {||} 1)
      = (at_page (table_props mockData Multiple 2) {|Num (Finite 1)|} 1, [[mockData ! 0]])"
    by (simp add: handleSelectRow_def notifySelection_def Let_def table_props_def mockData_def
        row_id_def get_def at_page_def totalPages_def)
  have reach: "Option.bind (mount (table_props mockData Multiple 2)) (dispatch_all (table_props mockData Multiple 2) [RowToggle (mockData ! 0)])
     = Some (at_page (table_props mockData Multiple 2) {|Num (Finite 1)|} 1)"
    by (simp add: mount_at_page dispatch_toggle_at_page toggle at_page_simps)
  have there: "dispatch_all (table_props mockData Multiple 2) [GoToNext] (at_page (table_props mockData Multiple 2) {|Num (Finite 1)|} 1)
      = Some (at_page (table_props mockData Multiple 2) {|Num (Finite 1)|} 2)"
    by (simp add: dispatch_next_at_page tp)
  have round_trip: "dispatch_all (table_props mockData Multiple 2) [GoToNext, GoToPrev] (at_page (table_props mockData Multiple 2) {|Num (Finite 1)|} 1)
      = Some (at_page (table_props mockData Multiple 2) {|Num (Finite 1)|} 1)"
    by (simp add: dispatch_next_at_page dispatch_prev_at_page tp)
  have sel: "selectedRows (at_page (table_props mockData Multiple 2) {|Num (Finite 1)|} 1) = {|Num (Finite 1)|}"
    by (simp add: at_page_def)
  have kept: "map_option selectedRows
      (dispatch_all (table_props mockData Multiple 2) [GoToNext, GoToPrev] (at_page (table_props mockData Multiple 2) {|Num (Finite 1)|} 1)) = Some {|Num (Finite 1)|}"
    using navigation_keeps_selection [OF pos nav, of "at_page (table_props mockData Multiple 2) {|Num (Finite 1)|} 1"]
    by (simp only: sel)
  have "is_navigation GoToNext" "is_navigation GoToPrev" by simp_all
  with pos reach there round_trip kept show ?thesis by blast
qed

text \<open>
  Claim C10. New props (with a page size of at least 1) never change the selection, and no event but the row toggle and
  select-all does: after the caller supplied another row sequence, the ids selected
  before are still in the selection. A call of \<open>onRowSelect\<close> carries the rows of the
  current data whose ids are selected, so an id without a row in the current data adds
  nothing to it; a row toggle in multiple mode leaves such an id in the selection.
\<close>

theorem data_change_keeps_selection:
  assumes "0 < itemsPerPage pr'"
  shows
  "map_option selectedRows (rerender pr' st) = Some (selectedRows st) \<and>
   (\<not> is_selection_event ev \<longrightarrow>
      map_option (\<lambda>res. selectedRows (fst res)) (dispatch pr' ev st) = Some (selectedRows st)) \<and>
   (\<forall>payload \<in> set (notifySelection pr' ids).
      payload = filter (\<lambda>d. row_id d |\<in>| ids) (data pr') \<and>
      (\<forall>i. i |\<in>| ids \<and> i \<notin> row_id ` set (data pr') \<longrightarrow> i \<notin> row_id ` set payload)) \<and>
   (selectionMode pr' = Multiple \<and> i |\<in>| selectedRows st \<and> i \<noteq> row_id r \<longrightarrow>
      i |\<in>| selectedRows (fst (handleSelectRow pr' r st)))"
proof -
  have a: "map_option selectedRows (rerender pr' st) = Some (selectedRows st)"
    by (simp add: rerender_def settle_eq rest_state_frame)
  have b: "\<not> is_selection_event ev \<longrightarrow>
      map_option (\<lambda>res. selectedRows (fst res)) (dispatch pr' ev st) = Some (selectedRows st)"
    by (cases ev)
       (simp_all add: dispatch_eq rest_state_frame goToNext_def goToPrev_def handleSort_def)
  have c: "\<forall>payload \<in> set (notifySelection pr' ids).
      payload = filter (\<lambda>d. row_id d |\<in>| ids) (data pr') \<and>
      (\<forall>i. i |\<in>| ids \<and> i \<notin> row_id ` set (data pr') \<longrightarrow> i \<notin> row_id ` set payload)"
    by (auto simp: notifySelection_def)
  have d: "selectionMode pr' = Multiple \<and> i |\<in>| selectedRows st \<and> i \<noteq> row_id r \<longrightarrow>
      i |\<in>| selectedRows (fst (handleSelectRow pr' r st))"
    by (simp add: handleSelectRow_def Let_def)
  from a b c d show ?thesis by blast
qed

theorem data_change_keeps_selection_witness:
  "0 < itemsPerPage (table_props otherData Multiple 2) \<and>
   rerender (table_props otherData Multiple 2) (at_page (table_props mockData Multiple 2) {|Num (Finite 1)|} 1)
     = Some (at_page (table_props otherData Multiple 2) {|Num (Finite 1)|} 1) \<and>
   map_option selectedRows (rerender (table_props otherData Multiple 2) (at_page (table_props mockData Multiple 2) {|Num (Finite 1)|} 1)) = Some {|Num (Finite 1)|} \<and>
   Num (Finite 1) \<notin> row_id ` set (data (table_props otherData Multiple 2)) \<and>
   \<not> is_selection_event (HeaderClick ''age'' (Some True)) \<and>
   map_option (\<lambda>res. selectedRows (fst res))
     (dispatch (table_props otherData Multiple 2) (HeaderClick ''age'' (Some True)) (at_page (table_props otherData Multiple 2) {|Num (Finite 1)|} 1))
     = Some {|Num (Finite 1)|} \<and>
   notifySelection (table_props otherData Multiple 2) {|Num (Finite 1)|} = [[]] \<and>
   selectionMode (table_props otherData Multiple 2) = Multiple \<and>
   handleSelectRow (table_props otherData Multiple 2) (otherData ! 0) (at_page (table_props otherData Multiple 2) {|Num (Finite 1)|} 1)
     = (at_page (table_props otherData Multiple 2) {|Str ''x1'', Num (Finite 1)|} 1, [[otherData ! 0]]) \<and>
   Num (Finite 1) |\<in>| selectedRows (fst (handleSelectRow (table_props otherData Multiple 2) (otherData ! 0) (at_page (table_props otherData Multiple 2) {|Num (Finite 1)|} 1)))"
proof -
  have tp: "totalPages (table_props mockData Multiple 2) = 2" "totalPages (table_props otherData Multiple 2) = 1"
    by (simp_all add: totalPages_def table_props_def mockData_def otherData_def)
  have new: "rerender (table_props otherData Multiple 2) (at_page (table_props mockData Multiple 2) {|Num (Finite 1)|} 1) = Some (at_page (table_props otherData Multiple 2) {|Num (Finite 1)|} 1)"
    using tp
    by (simp add: rerender_def settle_eq rest_state_def queued_pages_def at_page_def
        table_props_def mockData_def otherData_def)
  have ids: "Num (Finite 1) \<notin> row_id ` set (data (table_props otherData Multiple 2))"
    by (simp add: table_props_def otherData_def row_id_def get_def)
  have none: "notifySelection (table_props otherData Multiple 2) {|Num (Finite 1)|} = [[]]"
    by (simp add: notifySelection_def table_props_def otherData_def row_id_def get_def)
  have mode: "selectionMode (table_props otherData Multiple 2) = Multiple"
    by (simp add: table_props_def)
  have toggle: "handleSelectRow (table_props otherData Multiple 2) (otherData ! 0) (at_page (table_props otherData Multiple 2) {|Num (Finite 1)|} 1)
     = (at_page (table_props otherData Multiple 2) {|Str ''x1'', Num (Finite 1)|} 1, [[otherData ! 0]])"
    by (simp add: handleSelectRow_def notifySelection_def Let_def table_props_def otherData_def
        row_id_def get_def at_page_def totalPages_def)
  have pos: "0 < itemsPerPage (table_props otherData Multiple 2)"
    by (simp add: table_props_def)
  have sel: "selectedRows (at_page (table_props otherData Multiple 2) {|Num (Finite 1)|} 1) = {|Num (Finite 1)|}"
    "selectedRows (at_page (table_props mockData Multiple 2) {|Num (Finite 1)|} 1) = {|Num (Finite 1)|}"
    by (simp_all add: at_page_def)
  have id0: "row_id (otherData ! 0) = Str ''x1''"
    by (simp add: otherData_def row_id_def get_def)
  have kept: "map_option selectedRows (rerender (table_props otherData Multiple 2) (at_page (table_props mockData Multiple 2) {|Num (Finite 1)|} 1))
      = Some {|Num (Finite 1)|}"
    using data_change_keeps_selection [OF pos, where st = "at_page (table_props mockData Multiple 2) {|Num (Finite 1)|} 1"
        and ev = "HeaderClick ''age'' (Some True)" and ids = "{|Num (Finite 1)|}" and i = "Num (Finite 1)"
        and r = "otherData ! 0"]
    by (simp add: sel)
  have ev: "\<not> is_selection_event (HeaderClick ''age'' (Some True))"
    by simp
  have click: "map_option (\<lambda>res. selectedRows (fst res))
     (dispatch (table_props otherData Multiple 2) (HeaderClick ''age'' (Some True)) (at_page (table_props otherData Multiple 2) {|Num (Finite 1)|} 1))
     = Some {|Num (Finite 1)|}"
    and stays: "Num (Finite 1) |\<in>| selectedRows
      (fst (handleSelectRow (table_props otherData Multiple 2) (otherData ! 0) (at_page (table_props otherData Multiple 2) {|Num (Finite 1)|} 1)))"
    using data_change_keeps_selection [OF pos, where st = "at_page (table_props otherData Multiple 2) {|Num (Finite 1)|} 1"
        and ev = "HeaderClick ''age'' (Some True)" and ids = "{|Num (Finite 1)|}" and i = "Num (Finite 1)"
        and r = "otherData ! 0"] mode
    by (simp_all add: sel id0)
  from pos new kept ids ev click none mode toggle stays show ?thesis by blast
qed

end
